theory Spec2Isabelle
  imports Main "HOL-Library.AList" "HOL-Library.Sublist"
begin

section \<open>The JSON value domain\<close>

text \<open>
  The service \<^verbatim>\<open>NgsJsonUtilsService\<close> works on JavaScript values drawn from the JSON
  domain. A value is \<^verbatim>\<open>null\<close>, a boolean, a number, a string, an array or a plain object.
  A plain object is kept as the list of its own enumerable properties in enumeration
  order; JavaScript objects never hold a key twice, which is the invariant \<open>wf_json\<close> below.

  Limits of the model, fixed here once:
  \<^item> numbers are the integers, as far as a double holds them exactly and prints them
    in plain decimal (\<^verbatim>\<open>NaN\<close>, infinities, fractions, the rounding of doubles and the
    exponent form of large numbers are outside the model);
  \<^item> a string is a list of 8-bit code units;
  \<^item> \<^verbatim>\<open>undefined\<close> and the built-in functions and objects are not values of the
    domain: a result that may be one of them has a type of its own (\<open>jsresult\<close>
    below);
  \<^item> the prototype chain is modelled as far as the methods can see it: the names that a
    value inherits from the built-in prototypes are a parameter (section on inherited
    properties), and an assignment to the key \<^verbatim>\<open>__proto__\<close> runs the setter of
    \<^verbatim>\<open>Object.prototype\<close>; the built-in prototypes themselves are taken as the language
    defines them (nothing has added enumerable properties to them);
  \<^item> the enumeration order of an object is the order in which its keys were created
    (the rule of ECMAScript that lists integer-like keys first is not modelled).
\<close>

datatype json =
    JNull
  | JBool bool
  | JNum int
  | JStr string
  | JArr "json list"
  | JObj "(string \<times> json) list"

type_synonym object = "(string \<times> json) list"

datatype error = TypeError | SyntaxError

text \<open>
  \<^verbatim>\<open>xs.reduce(f, acc)\<close> for a callback that may stop the whole call: the first \<open>Inl\<close>
  ends the loop and is the outcome.
\<close>

fun reduce :: "('b \<Rightarrow> 'a \<Rightarrow> 'e + 'b) \<Rightarrow> 'b \<Rightarrow> 'a list \<Rightarrow> 'e + 'b" where
  "reduce f acc [] = Inr acc"
| "reduce f acc (x # xs) = (case f acc x of Inl e \<Rightarrow> Inl e | Inr acc' \<Rightarrow> reduce f acc' xs)"

lemma reduce_cong [fundef_cong]:
  "acc = acc' \<Longrightarrow> xs = ys \<Longrightarrow> (\<And>a x. x \<in> set ys \<Longrightarrow> f a x = g a x) \<Longrightarrow>
   reduce f acc xs = reduce g acc' ys"
proof -
  assume "acc = acc'" "xs = ys" and fg: "\<And>a x. x \<in> set ys \<Longrightarrow> f a x = g a x"
  have "reduce f a ys = reduce g a ys" for a
    using fg by (induction ys arbitrary: a) (simp_all split: sum.splits)
  with \<open>acc = acc'\<close> \<open>xs = ys\<close> show ?thesis by simp
qed

fun wf_json :: "json \<Rightarrow> bool" where
  "wf_json (JArr xs) = list_all wf_json xs"
| "wf_json (JObj kvs) = (distinct (map fst kvs) \<and> list_all (\<lambda>kv. wf_json (snd kv)) kvs)"
| "wf_json v = True"

text \<open>\<^verbatim>\<open>typeof v === 'object' && v !== null\<close>: true of objects and of arrays.\<close>

fun typeof_object :: "json \<Rightarrow> bool" where
  "typeof_object (JArr xs) = True"
| "typeof_object (JObj kvs) = True"
| "typeof_object v = False"

text \<open>\<^verbatim>\<open>v && typeof v === 'object' && !Array.isArray(v)\<close>: true of plain objects only.\<close>

fun is_mapping :: "json \<Rightarrow> bool" where
  "is_mapping (JObj kvs) = True"
| "is_mapping v = False"

text \<open>The truthiness of a value (\<^verbatim>\<open>v && ...\<close>, \<^verbatim>\<open>v || ...\<close>).\<close>

fun truthy :: "json \<Rightarrow> bool" where
  "truthy JNull = False"
| "truthy (JBool b) = b"
| "truthy (JNum n) = (n \<noteq> 0)"
| "truthy (JStr s) = (s \<noteq> [])"
| "truthy (JArr xs) = True"
| "truthy (JObj kvs) = True"

subsection \<open>Index keys\<close>

text \<open>The decimal numeral of a natural number, as \<^verbatim>\<open>String(i)\<close> writes an array index.\<close>

definition digit_char :: "nat \<Rightarrow> char" where
  "digit_char d = ''0123456789'' ! d"

fun show_nat :: "nat \<Rightarrow> string" where
  "show_nat n = (if n < 10 then [digit_char n] else show_nat (n div 10) @ [digit_char (n mod 10)])"

declare show_nat.simps [simp del]

definition index_keys :: "nat \<Rightarrow> string list" where
  "index_keys n = map show_nat [0..<n]"

text \<open>The index that a property key denotes on an array or string of length \<open>n\<close>, if any.\<close>

definition array_index :: "string \<Rightarrow> nat \<Rightarrow> nat option" where
  "array_index k n = find (\<lambda>i. show_nat i = k) [0..<n]"

subsection \<open>Decimal numerals\<close>

text \<open>
  Reading a numeral back, for the parser below, and the facts about index keys that the
  definitions and proofs below use: a numeral determines its number, and no numeral is
  the key \<^verbatim>\<open>length\<close>.
\<close>

definition is_digit :: "char \<Rightarrow> bool" where
  "is_digit c = (48 \<le> (of_char c :: nat) \<and> (of_char c :: nat) \<le> 57)"

definition digit_val :: "char \<Rightarrow> nat" where
  "digit_val c = of_char c - 48"

definition read_nat :: "string \<Rightarrow> nat" where
  "read_nat s = foldl (\<lambda>a c. 10 * a + digit_val c) 0 s"

lemma digit_char_props:
  "d < 10 \<Longrightarrow> digit_val (digit_char d) = d \<and> is_digit (digit_char d)"
proof -
  assume "d < 10"
  then have "d \<in> {0, 1, 2, 3, 4, 5, 6, 7, 8, 9}" by auto
  then show ?thesis
    by (auto simp: digit_char_def digit_val_def is_digit_def)
qed

lemma read_nat_snoc: "read_nat (s @ [c]) = 10 * read_nat s + digit_val c"
  by (simp add: read_nat_def)

lemma read_nat_show_nat: "read_nat (show_nat n) = n"
proof (induction n rule: show_nat.induct)
  case (1 n)
  show ?case
  proof (cases "n < 10")
    case True
    then show ?thesis
      by (subst show_nat.simps) (simp add: read_nat_def digit_char_props)
  next
    case False
    with 1 have "read_nat (show_nat (n div 10)) = n div 10" by simp
    with False show ?thesis
      by (subst show_nat.simps) (simp add: read_nat_snoc digit_char_props)
  qed
qed

lemma show_nat_inj: "show_nat a = show_nat b \<Longrightarrow> a = b"
  by (metis read_nat_show_nat)

lemma show_nat_digits: "list_all is_digit (show_nat n)"
proof (induction n rule: show_nat.induct)
  case (1 n)
  show ?case
  proof (cases "n < 10")
    case True
    then show ?thesis by (subst show_nat.simps) (simp add: digit_char_props)
  next
    case False
    with 1 have "list_all is_digit (show_nat (n div 10))" by simp
    with False show ?thesis by (subst show_nat.simps) (simp add: digit_char_props)
  qed
qed

lemma show_nat_not_Nil: "show_nat n \<noteq> []"
  by (subst show_nat.simps) simp

lemma show_nat_not_length: "show_nat n \<noteq> ''length''"
proof
  assume "show_nat n = ''length''"
  with show_nat_digits [of n] show False by (simp add: is_digit_def)
qed

lemma distinct_index_keys: "distinct (index_keys n)"
  by (auto simp: index_keys_def distinct_map inj_on_def dest: show_nat_inj)

lemma length_index_keys [simp]: "length (index_keys n) = n"
  by (simp add: index_keys_def)

lemma find_app:
  "find P (xs @ ys) = (case find P xs of None \<Rightarrow> find P ys | Some x \<Rightarrow> Some x)"
  by (induction xs) auto

lemma find_upt: "find (\<lambda>i. f i = f j) [0..<n] = (if j < n then Some j else None)" if "inj f"
proof (induction n)
  case 0
  then show ?case by simp
next
  case (Suc n)
  then show ?case using that by (auto simp: find_app inj_def less_Suc_eq split: option.splits)
qed

lemma array_index_show_nat: "array_index (show_nat i) n = (if i < n then Some i else None)"
  unfolding array_index_def using find_upt [of show_nat i n] show_nat_inj
  by (simp add: inj_def)

lemma array_index_Some: "array_index k n = Some i \<longleftrightarrow> i < n \<and> k = show_nat i"
proof
  assume "array_index k n = Some i"
  then show "i < n \<and> k = show_nat i"
    unfolding array_index_def by (auto simp: find_Some_iff)
next
  assume "i < n \<and> k = show_nat i"
  then show "array_index k n = Some i" by (simp add: array_index_show_nat)
qed

subsection \<open>Property access\<close>

text \<open>
  \<^verbatim>\<open>Object.entries(v)\<close>: the own enumerable properties of a value with their values.
  (On \<^verbatim>\<open>null\<close> the call throws; every caller below tests for \<^verbatim>\<open>null\<close> first.)
\<close>

fun entries :: "json \<Rightarrow> object" where
  "entries (JObj kvs) = kvs"
| "entries (JArr xs) = zip (index_keys (length xs)) xs"
| "entries (JStr s) = zip (index_keys (length s)) (map (\<lambda>c. JStr [c]) s)"
| "entries v = []"

text \<open>
  The own property \<open>k\<close> of a value: a member of an object, an index or \<^verbatim>\<open>length\<close> of an
  array or of a string; \<open>None\<close> when the value has no own property \<open>k\<close>. This is \<^verbatim>\<open>v[k]\<close>
  wherever \<open>k\<close> is known to be an own key of \<open>v\<close>.
\<close>

fun get_prop :: "json \<Rightarrow> string \<Rightarrow> json option" where
  "get_prop (JObj kvs) k = map_of kvs k"
| "get_prop (JArr xs) k =
     (if k = ''length'' then Some (JNum (int (length xs)))
      else map_option (\<lambda>i. xs ! i) (array_index k (length xs)))"
| "get_prop (JStr s) k =
     (if k = ''length'' then Some (JNum (int (length s)))
      else map_option (\<lambda>i. JStr [s ! i]) (array_index k (length s)))"
| "get_prop v k = None"

subsection \<open>Inherited properties\<close>

text \<open>
  A read \<^verbatim>\<open>v[k]\<close> and the test \<^verbatim>\<open>k in v\<close> also see the properties that \<open>v\<close> inherits
  from the built-in prototypes (\<^verbatim>\<open>Object.prototype\<close>, \<^verbatim>\<open>Array.prototype\<close>, ...). Which
  names these are is a matter of the platform, not of the service, so the methods that
  depend on it take the table as a parameter: for each kind of value, the names visible
  through its whole prototype chain. The value of such a property is a function or a
  prototype object of the platform (\<^verbatim>\<open>{}.toString\<close>, \<^verbatim>\<open>{}.__proto__\<close>): it is defined,
  truthy and not a value of the JSON domain. What a further read on it gives is not
  modelled. Inherited properties of the built-in prototypes are not enumerable, so
  \<^verbatim>\<open>for ... in\<close> and \<^verbatim>\<open>Object.keys\<close> list own keys only. An own property hides an
  inherited one of the same name.
\<close>

record platform =
  object_names :: "string list"
  array_names :: "string list"
  string_names :: "string list"
  number_names :: "string list"
  boolean_names :: "string list"

fun inherited_names :: "platform \<Rightarrow> json \<Rightarrow> string list" where
  "inherited_names P (JObj kvs) = object_names P"
| "inherited_names P (JArr xs) = array_names P"
| "inherited_names P (JStr s) = string_names P"
| "inherited_names P (JNum n) = number_names P"
| "inherited_names P (JBool b) = boolean_names P"
| "inherited_names P JNull = []"

text \<open>
  The outcome of a read: \<^verbatim>\<open>undefined\<close>, a value of the domain, a built-in function or
  object, or, for a read on such a built-in, something the model does not determine.
\<close>

datatype jsresult = Undefined | Value json | Builtin | Unknown

text \<open>\<^verbatim>\<open>v[k]\<close> for a value that is not \<^verbatim>\<open>null\<close> (on \<^verbatim>\<open>null\<close> the read throws).\<close>

definition read_prop :: "platform \<Rightarrow> json \<Rightarrow> string \<Rightarrow> jsresult" where
  "read_prop P v k =
     (case get_prop v k of
        Some x \<Rightarrow> Value x
      | None \<Rightarrow> if k \<in> set (inherited_names P v) then Builtin else Undefined)"

text \<open>\<^verbatim>\<open>k in v\<close>: throws a TypeError unless \<open>v\<close> is an object or an array.\<close>

fun has_in :: "platform \<Rightarrow> string \<Rightarrow> json \<Rightarrow> error + bool" where
  "has_in P k (JObj kvs) = Inr (k \<in> set (map fst kvs) \<or> k \<in> set (object_names P))"
| "has_in P k (JArr xs) =
     Inr (k = ''length'' \<or> array_index k (length xs) \<noteq> None \<or> k \<in> set (array_names P))"
| "has_in P k v = Inl TypeError"

text \<open>
  The names that ECMAScript 2023 (with its Annex B) gives the built-in prototypes, for
  the examples below. An engine may know more names; the theorems hold for every table.
\<close>

definition object_prototype :: "string list" where
  "object_prototype =
     [''constructor'', ''hasOwnProperty'', ''isPrototypeOf'', ''propertyIsEnumerable'',
      ''toLocaleString'', ''toString'', ''valueOf'', ''__proto__'', ''__defineGetter__'',
      ''__defineSetter__'', ''__lookupGetter__'', ''__lookupSetter__'']"

definition ecmascript :: platform where
  "ecmascript =
     \<lparr>object_names = object_prototype,
      array_names =
        [''at'', ''concat'', ''copyWithin'', ''entries'', ''every'', ''fill'', ''filter'',
         ''find'', ''findIndex'', ''findLast'', ''findLastIndex'', ''flat'', ''flatMap'',
         ''forEach'', ''includes'', ''indexOf'', ''join'', ''keys'', ''lastIndexOf'', ''map'',
         ''pop'', ''push'', ''reduce'', ''reduceRight'', ''reverse'', ''shift'', ''slice'',
         ''some'', ''sort'', ''splice'', ''toReversed'', ''toSorted'', ''toSpliced'',
         ''unshift'', ''values'', ''with''] @ object_prototype,
      string_names =
        [''at'', ''charAt'', ''charCodeAt'', ''codePointAt'', ''concat'', ''endsWith'',
         ''includes'', ''indexOf'', ''isWellFormed'', ''lastIndexOf'', ''localeCompare'',
         ''match'', ''matchAll'', ''normalize'', ''padEnd'', ''padStart'', ''repeat'',
         ''replace'', ''replaceAll'', ''search'', ''slice'', ''split'', ''startsWith'',
         ''substring'', ''toLocaleLowerCase'', ''toLocaleUpperCase'', ''toLowerCase'',
         ''toUpperCase'', ''toWellFormed'', ''trim'', ''trimEnd'', ''trimStart'', ''substr'',
         ''anchor'', ''big'', ''blink'', ''bold'', ''fixed'', ''fontcolor'', ''fontsize'',
         ''italics'', ''link'', ''small'', ''strike'', ''sub'', ''sup'', ''trimLeft'',
         ''trimRight''] @ object_prototype,
      number_names = [''toExponential'', ''toFixed'', ''toPrecision''] @ object_prototype,
      boolean_names = object_prototype\<rparr>"

section \<open>Navigator\<close>

subsection \<open>findValueByKey and safeFindValueByKey\<close>

text \<open>
  The loop \<^verbatim>\<open>for (const k in obj) { ... return result ... }\<close> followed by
  \<^verbatim>\<open>return undefined\<close>: the first result of the body that is not \<^verbatim>\<open>undefined\<close>, a
  thrown error passing through.
\<close>

fun for_first :: "('a \<Rightarrow> error + jsresult) \<Rightarrow> 'a list \<Rightarrow> error + jsresult" where
  "for_first f [] = Inr Undefined"
| "for_first f (x # xs) =
     (case f x of
        Inl e \<Rightarrow> Inl e
      | Inr Undefined \<Rightarrow> for_first f xs
      | Inr r \<Rightarrow> Inr r)"

lemma for_first_cong [fundef_cong]:
  "xs = ys \<Longrightarrow> (\<And>x. x \<in> set ys \<Longrightarrow> f x = g x) \<Longrightarrow> for_first f xs = for_first g ys"
  by (induction ys arbitrary: xs) (auto split: sum.splits jsresult.splits)

lemma size_entries:
  "(k, v) \<in> set (entries obj) \<Longrightarrow> typeof_object v \<Longrightarrow> size v < size obj"
proof (cases obj)
  case (JArr xs)
  assume "(k, v) \<in> set (entries obj)"
  with JArr have "v \<in> set xs" by (auto dest: set_zip_rightD)
  then have "size v \<le> size_list size xs" by (simp add: size_list_estimation')
  with JArr show ?thesis by simp
next
  case (JObj kvs)
  assume "(k, v) \<in> set (entries obj)"
  with JObj have "(k, v) \<in> set kvs" by simp
  then have "size v < Suc (size_list (size_prod (\<lambda>_. 0) size) kvs)"
    by (induction kvs) auto
  with JObj show ?thesis by simp
qed (auto dest!: set_zip_rightD)

function findValueByKey :: "platform \<Rightarrow> json \<Rightarrow> string \<Rightarrow> error + jsresult" where
  "findValueByKey P obj key =
     (case has_in P key obj of
        Inl e \<Rightarrow> Inl e
      | Inr True \<Rightarrow> Inr (read_prop P obj key)
      | Inr False \<Rightarrow>
          for_first
            (\<lambda>(k, v). if typeof_object v then findValueByKey P v key else Inr Undefined)
            (entries obj))"
  by pat_completeness auto
termination
  by (relation "measure (\<lambda>(P, obj, key). size obj)") (auto simp: size_entries)

declare findValueByKey.simps [simp del]

text \<open>
  The safe variant has the same body inside \<^verbatim>\<open>try\<close>; its \<^verbatim>\<open>catch\<close> turns a thrown
  error into \<^verbatim>\<open>undefined\<close>. It calls itself on the members.
\<close>

function safeFindValueByKey :: "platform \<Rightarrow> json \<Rightarrow> string \<Rightarrow> jsresult" where
  "safeFindValueByKey P obj key =
     (case (case has_in P key obj of
              Inl e \<Rightarrow> Inl e
            | Inr True \<Rightarrow> Inr (read_prop P obj key)
            | Inr False \<Rightarrow>
                for_first
                  (\<lambda>(k, v). if typeof_object v then Inr (safeFindValueByKey P v key)
                            else Inr Undefined)
                  (entries obj)) of
        Inl e \<Rightarrow> Undefined
      | Inr r \<Rightarrow> r)"
  by pat_completeness auto
termination
  by (relation "measure (\<lambda>(P, obj, key). size obj)") (auto simp: size_entries)

declare safeFindValueByKey.simps [simp del]

subsection \<open>getByPath\<close>

text \<open>
  \<^verbatim>\<open>path\<close> is typed as an array of strings, so \<^verbatim>\<open>!Array.isArray(path)\<close> is false.
  The reducer is \<^verbatim>\<open>(acc && acc[key] !== undefined) ? acc[key] : undefined\<close>. A built-in
  function or object is truthy, and what a read on it gives is not modelled.
\<close>

definition getByPath_step :: "platform \<Rightarrow> jsresult \<Rightarrow> string \<Rightarrow> jsresult" where
  "getByPath_step P acc key =
     (case acc of
        Undefined \<Rightarrow> Undefined
      | Value a \<Rightarrow> if truthy a then read_prop P a key else Undefined
      | Builtin \<Rightarrow> Unknown
      | Unknown \<Rightarrow> Unknown)"

definition getByPath :: "platform \<Rightarrow> json \<Rightarrow> string list \<Rightarrow> jsresult" where
  "getByPath P obj path =
     (if \<not> typeof_object obj then Undefined
      else foldl (getByPath_step P) (Value obj) path)"

subsection \<open>flattenObject\<close>

text \<open>
  The parameter \<^verbatim>\<open>prefix\<close> of the source is \<open>pfx\<close> here; an empty string is falsy, so
  \<^verbatim>\<open>prefix ? `${prefix}.${key}` : key\<close> tests for the empty prefix.
\<close>

text \<open>
  The result object is built by assignments, and an assignment \<^verbatim>\<open>acc[k] = v\<close> does not
  always create a member: for the key \<^verbatim>\<open>__proto__\<close>, when \<open>acc\<close> has no own member of
  that name, the assignment reaches the accessor that \<^verbatim>\<open>Object.prototype\<close> holds under
  this name. Its setter replaces the prototype of \<open>acc\<close> when \<open>v\<close> is \<^verbatim>\<open>null\<close>, an
  object or an array, and does nothing for any other \<open>v\<close>. The object under
  construction is therefore its own members together with its prototype.
\<close>

datatype prototype = ObjectPrototype | NullPrototype | ValuePrototype json

type_synonym jsobject = "object \<times> prototype"

text \<open>
  Whether the accessor is found from an object with this prototype: not under a
  \<^verbatim>\<open>null\<close> prototype, and not when the prototype is a value that has a member
  \<^verbatim>\<open>__proto__\<close> of its own (a value's own prototype is a built-in one).
\<close>

fun reaches_setter :: "prototype \<Rightarrow> bool" where
  "reaches_setter ObjectPrototype = True"
| "reaches_setter NullPrototype = False"
| "reaches_setter (ValuePrototype q) = (get_prop q ''__proto__'' = None)"

text \<open>\<^verbatim>\<open>acc[k] = v\<close>.\<close>

definition set_prop :: "string \<Rightarrow> json \<Rightarrow> jsobject \<Rightarrow> jsobject" where
  "set_prop k v acc =
     (case acc of (members, proto) \<Rightarrow>
        if k = ''__proto__'' \<and> map_of members k = None \<and> reaches_setter proto
        then (if v = JNull then (members, NullPrototype)
              else if typeof_object v then (members, ValuePrototype v)
              else (members, proto))
        else (AList.update k v members, proto))"

text \<open>
  \<^verbatim>\<open>Object.assign(acc, src)\<close>: the own members of \<open>src\<close> are assigned to \<open>acc\<close> in order.
\<close>

definition object_assign :: "jsobject \<Rightarrow> object \<Rightarrow> jsobject" where
  "object_assign acc src = foldl (\<lambda>a (k, v). set_prop k v a) acc src"

function flattenObject :: "json \<Rightarrow> string \<Rightarrow> jsobject" where
  "flattenObject obj pfx =
     (if \<not> typeof_object obj then ([], ObjectPrototype)
      else foldl
             (\<lambda>acc (key, value).
                let newKey = (if pfx \<noteq> [] then pfx @ ''.'' @ key else key)
                in if typeof_object value
                   then object_assign acc (fst (flattenObject value newKey))
                   else set_prop newKey value acc)
             ([], ObjectPrototype) (entries obj))"
  by pat_completeness auto
termination
  by (relation "measure (\<lambda>(obj, pfx). size obj)") (auto simp: size_entries)

declare flattenObject.simps [simp del]

section \<open>Normalizer\<close>

subsection \<open>removeEmptyValues\<close>

text \<open>
  Creating members in order on an object: a key that is already there keeps its place
  and takes the new value, a new key is added at the end. Here every key creates a
  member, \<^verbatim>\<open>__proto__\<close> included.
\<close>

definition create_properties :: "object \<Rightarrow> object \<Rightarrow> object" where
  "create_properties acc src = foldl (\<lambda>a (k, v). AList.update k v a) acc src"

text \<open>\<^verbatim>\<open>Object.fromEntries(es)\<close>: a new object on which the entries are created in order.\<close>

definition from_entries :: "object \<Rightarrow> object" where
  "from_entries es = create_properties [] es"

text \<open>The filter keeps \<^verbatim>\<open>v != null && v !== ''\<close>.\<close>

definition removeEmptyValues :: "json \<Rightarrow> object" where
  "removeEmptyValues obj =
     (if \<not> typeof_object obj then []
      else from_entries (filter (\<lambda>(k, v). v \<noteq> JNull \<and> v \<noteq> JStr []) (entries obj)))"

subsection \<open>mergeUniqueByKey\<close>

text \<open>
  \<open>mergeUniqueByKey\<close> compares members with \<^verbatim>\<open>===\<close>, which on objects and arrays is
  identity. For this method a value is therefore a primitive or a reference, and a heap
  maps each reference to the array or object it denotes; two references are \<^verbatim>\<open>===\<close>
  exactly when they are the same address, so \<^verbatim>\<open>===\<close> is the equality of \<open>hval\<close>. The
  result array is returned as the list of its elements.
\<close>

datatype hval = HNull | HBool bool | HNum int | HStr string | HRef nat

datatype hobj = HArr "hval list" | HObj "(string \<times> hval) list"

type_synonym heap = "nat \<Rightarrow> hobj option"

fun is_harray :: "heap \<Rightarrow> hval \<Rightarrow> bool" where
  "is_harray h (HRef a) = (case h a of Some (HArr xs) \<Rightarrow> True | _ \<Rightarrow> False)"
| "is_harray h v = False"

fun helements :: "heap \<Rightarrow> hval \<Rightarrow> hval list" where
  "helements h (HRef a) = (case h a of Some (HArr xs) \<Rightarrow> xs | _ \<Rightarrow> [])"
| "helements h v = []"

text \<open>\<^verbatim>\<open>arrays.flat()\<close>: one level of nested arrays is spliced in.\<close>

definition flat :: "heap \<Rightarrow> hval list \<Rightarrow> hval list" where
  "flat h xs = concat (map (\<lambda>x. if is_harray h x then helements h x else [x]) xs)"

fun htruthy :: "hval \<Rightarrow> bool" where
  "htruthy HNull = False"
| "htruthy (HBool b) = b"
| "htruthy (HNum n) = (n \<noteq> 0)"
| "htruthy (HStr s) = (s \<noteq> [])"
| "htruthy (HRef a) = True"

text \<open>\<^verbatim>\<open>v[k]\<close> on own properties, as \<open>get_prop\<close> above.\<close>

fun hget :: "heap \<Rightarrow> hval \<Rightarrow> string \<Rightarrow> hval option" where
  "hget h (HRef a) k =
     (case h a of
        Some (HObj kvs) \<Rightarrow> map_of kvs k
      | Some (HArr xs) \<Rightarrow>
          if k = ''length'' then Some (HNum (int (length xs)))
          else map_option (\<lambda>i. xs ! i) (array_index k (length xs))
      | None \<Rightarrow> None)"
| "hget h (HStr s) k =
     (if k = ''length'' then Some (HNum (int (length s)))
      else map_option (\<lambda>i. HStr [s ! i]) (array_index k (length s)))"
| "hget h v k = None"

text \<open>
  \<^verbatim>\<open>obj.hasOwnProperty(key)\<close> looks the method up on \<open>obj\<close> itself. An own member named
  \<^verbatim>\<open>hasOwnProperty\<close> hides the method of \<^verbatim>\<open>Object.prototype\<close>; a member of a JSON
  value is never a function, so the call throws a \<^verbatim>\<open>TypeError\<close>. Otherwise the method
  of \<^verbatim>\<open>Object.prototype\<close> answers whether \<open>key\<close> is an own property.
\<close>

definition hasOwnProperty :: "heap \<Rightarrow> hval \<Rightarrow> string \<Rightarrow> error + bool" where
  "hasOwnProperty h obj key =
     (if hget h obj ''hasOwnProperty'' \<noteq> None then Inl TypeError
      else Inr (hget h obj key \<noteq> None))"

text \<open>
  The reducer. \<^verbatim>\<open>key\<close> is typed as a string, so \<^verbatim>\<open>typeof key !== 'string'\<close> is false.
  The conjunction is evaluated left to right: a falsy \<open>obj\<close> is skipped before any call,
  and the values under \<open>key\<close> are read only from elements that own \<open>key\<close>.
\<close>

definition merge_step :: "heap \<Rightarrow> string \<Rightarrow> hval list \<Rightarrow> hval \<Rightarrow> error + hval list" where
  "merge_step h key acc obj =
     (if \<not> htruthy obj then Inr acc
      else case hasOwnProperty h obj key of
             Inl e \<Rightarrow> Inl e
           | Inr owns \<Rightarrow>
               if owns \<and> \<not> list_ex (\<lambda>item. hget h item key = hget h obj key) acc
               then Inr (acc @ [obj])
               else Inr acc)"

definition mergeUniqueByKey :: "heap \<Rightarrow> hval \<Rightarrow> string \<Rightarrow> error + hval list" where
  "mergeUniqueByKey h arrays key =
     (if \<not> is_harray h arrays then Inr []
      else reduce (merge_step h key) [] (flat h (helements h arrays)))"

text \<open>The elements that are truthy and own the key.\<close>

definition eligible :: "heap \<Rightarrow> string \<Rightarrow> hval \<Rightarrow> bool" where
  "eligible h key obj = (htruthy obj \<and> hget h obj key \<noteq> None)"

text \<open>The elements on which the call of \<^verbatim>\<open>hasOwnProperty\<close> throws.\<close>

definition shadows_method :: "heap \<Rightarrow> hval \<Rightarrow> bool" where
  "shadows_method h obj = (htruthy obj \<and> hget h obj ''hasOwnProperty'' \<noteq> None)"

section \<open>Codec\<close>

text \<open>
  \<^verbatim>\<open>JSON.stringify\<close> and \<^verbatim>\<open>JSON.parse\<close> are functions of the platform, not of the
  service. \<open>deepMerge\<close>, \<open>deepUpdate\<close> and \<open>equalJSON\<close> call them, and they are
  modelled as far as these three methods use them on the value domain above: texts are
  lists of characters and numerals are integer numerals in plain decimal. The parser is
  applied only to texts that are put together from outputs of \<open>JSON_stringify\<close>; a
  fraction, an exponent or a \<^verbatim>\<open>\uXXXX\<close> escape above \<^verbatim>\<open>00ff\<close> never occurs in such a
  text, and the parser refuses them. The conversion between doubles and their decimal
  text, and strings beyond 8-bit code units, are not modelled; the methods \<^verbatim>\<open>stringify\<close>,
  \<^verbatim>\<open>parse\<close> and \<^verbatim>\<open>deepCopy\<close>, which only wrap the two platform calls, are therefore
  left out. \<open>JSON_stringify\<close> is the call without \<^verbatim>\<open>replacer\<close> and \<^verbatim>\<open>space\<close>. On this
  domain it never throws and never returns \<^verbatim>\<open>undefined\<close>.
\<close>

subsection \<open>JSON.stringify\<close>

abbreviation dquote :: char where "dquote \<equiv> CHR 0x22"
abbreviation backslash :: char where "backslash \<equiv> CHR 0x5C"

definition hex_digit :: "nat \<Rightarrow> char" where
  "hex_digit d = ''0123456789abcdef'' ! d"

definition escape_char :: "char \<Rightarrow> string" where
  "escape_char c =
     (if c = dquote then [backslash, dquote]
      else if c = backslash then [backslash, backslash]
      else if c = CHR 0x08 then [backslash, CHR ''b'']
      else if c = CHR 0x0C then [backslash, CHR ''f'']
      else if c = CHR 0x0A then [backslash, CHR ''n'']
      else if c = CHR 0x0D then [backslash, CHR ''r'']
      else if c = CHR 0x09 then [backslash, CHR ''t'']
      else if (of_char c :: nat) < 32
        then [backslash, CHR ''u'', CHR ''0'', CHR ''0'',
              hex_digit (of_char c div 16), hex_digit (of_char c mod 16)]
      else [c])"

definition quote :: "string \<Rightarrow> string" where
  "quote s = dquote # concat (map escape_char s) @ [dquote]"

definition show_int :: "int \<Rightarrow> string" where
  "show_int i = (if i < 0 then CHR ''-'' # show_nat (nat (- i)) else show_nat (nat i))"

fun join_with :: "string \<Rightarrow> string list \<Rightarrow> string" where
  "join_with sep [] = []"
| "join_with sep [x] = x"
| "join_with sep (x # xs) = x @ sep @ join_with sep xs"

fun JSON_stringify :: "json \<Rightarrow> string" where
  "JSON_stringify JNull = ''null''"
| "JSON_stringify (JBool b) = (if b then ''true'' else ''false'')"
| "JSON_stringify (JNum n) = show_int n"
| "JSON_stringify (JStr s) = quote s"
| "JSON_stringify (JArr xs) = ''['' @ join_with '','' (map JSON_stringify xs) @ '']''"
| "JSON_stringify (JObj kvs) =
     ''{'' @ join_with '','' (map (\<lambda>(k, v). quote k @ '':'' @ JSON_stringify v) kvs) @ ''}''"

subsection \<open>JSON.parse\<close>

text \<open>
  A recursive-descent parser. Its first argument bounds the number of nested calls; the
  entry point \<open>JSON_parse\<close> passes the length of the text plus one, and every call reads
  at least one character before it calls again.
\<close>

definition is_ws :: "char \<Rightarrow> bool" where
  "is_ws c = (c = CHR '' '' \<or> c = CHR 0x09 \<or> c = CHR 0x0A \<or> c = CHR 0x0D)"

definition skip_ws :: "string \<Rightarrow> string" where
  "skip_ws cs = dropWhile is_ws cs"

definition hex_val :: "char \<Rightarrow> nat option" where
  "hex_val c =
     (let n = (of_char c :: nat) in
      if 48 \<le> n \<and> n \<le> 57 then Some (n - 48)
      else if 97 \<le> n \<and> n \<le> 102 then Some (n - 87)
      else if 65 \<le> n \<and> n \<le> 70 then Some (n - 55)
      else None)"

definition unescape :: "char \<Rightarrow> char option" where
  "unescape e =
     (if e = dquote then Some dquote
      else if e = backslash then Some backslash
      else if e = CHR ''/'' then Some (CHR ''/'')
      else if e = CHR ''b'' then Some (CHR 0x08)
      else if e = CHR ''f'' then Some (CHR 0x0C)
      else if e = CHR ''n'' then Some (CHR 0x0A)
      else if e = CHR ''r'' then Some (CHR 0x0D)
      else if e = CHR ''t'' then Some (CHR 0x09)
      else None)"

definition hex4 :: "char \<Rightarrow> char \<Rightarrow> char \<Rightarrow> char \<Rightarrow> char option" where
  "hex4 h1 h2 h3 h4 =
     (case (hex_val h1, hex_val h2, hex_val h3, hex_val h4) of
        (Some a, Some b, Some c, Some d) \<Rightarrow>
          (let n = 4096 * a + 256 * b + 16 * c + d in if n < 256 then Some (char_of n) else None)
      | _ \<Rightarrow> None)"

fun parse_chars :: "string \<Rightarrow> (string \<times> string) option" where
  "parse_chars [] = None"
| "parse_chars (c # cs) =
     (if c = dquote then Some ([], cs)
      else if c = backslash then
        (case cs of
           [] \<Rightarrow> None
         | e # cs' \<Rightarrow>
             if e = CHR ''u'' then
               (case cs' of
                  h1 # h2 # h3 # h4 # cs'' \<Rightarrow>
                    (case hex4 h1 h2 h3 h4 of
                       None \<Rightarrow> None
                     | Some ch \<Rightarrow> map_option (\<lambda>(s, r). (ch # s, r)) (parse_chars cs''))
                | _ \<Rightarrow> None)
             else
               (case unescape e of
                  None \<Rightarrow> None
                | Some ch \<Rightarrow> map_option (\<lambda>(s, r). (ch # s, r)) (parse_chars cs')))
      else if (of_char c :: nat) < 32 then None
      else map_option (\<lambda>(s, r). (c # s, r)) (parse_chars cs))"

fun strip_prefix :: "string \<Rightarrow> string \<Rightarrow> string option" where
  "strip_prefix [] cs = Some cs"
| "strip_prefix (p # ps) [] = None"
| "strip_prefix (p # ps) (c # cs) = (if p = c then strip_prefix ps cs else None)"

definition parse_number :: "string \<Rightarrow> (json \<times> string) option" where
  "parse_number cs =
     (let neg = (cs \<noteq> [] \<and> hd cs = CHR ''-'');
          r = (if neg then tl cs else cs);
          ds = takeWhile is_digit r;
          rest = dropWhile is_digit r
      in if ds = [] then None
         else if 1 < length ds \<and> hd ds = CHR ''0'' then None
         else if rest \<noteq> [] \<and> hd rest \<in> set ''.eE'' then None
         else Some (JNum (if neg then - int (read_nat ds) else int (read_nat ds)), rest))"

fun parse_value :: "nat \<Rightarrow> string \<Rightarrow> (json \<times> string) option"
and parse_elements :: "nat \<Rightarrow> json list \<Rightarrow> string \<Rightarrow> (json \<times> string) option"
and parse_members :: "nat \<Rightarrow> object \<Rightarrow> string \<Rightarrow> (json \<times> string) option"
where
  "parse_value 0 cs = None"
| "parse_value (Suc n) cs =
     (case skip_ws cs of
        [] \<Rightarrow> None
      | c # r \<Rightarrow>
          if c = CHR ''{'' then
            (case skip_ws r of
               [] \<Rightarrow> None
             | d # r' \<Rightarrow> if d = CHR ''}'' then Some (JObj [], r') else parse_members n [] r)
          else if c = CHR ''['' then
            (case skip_ws r of
               [] \<Rightarrow> None
             | d # r' \<Rightarrow> if d = CHR '']'' then Some (JArr [], r') else parse_elements n [] r)
          else if c = dquote then map_option (\<lambda>(s, r'). (JStr s, r')) (parse_chars r)
          else if c = CHR ''t'' then map_option (\<lambda>r'. (JBool True, r')) (strip_prefix ''rue'' r)
          else if c = CHR ''f'' then map_option (\<lambda>r'. (JBool False, r')) (strip_prefix ''alse'' r)
          else if c = CHR ''n'' then map_option (\<lambda>r'. (JNull, r')) (strip_prefix ''ull'' r)
          else parse_number (c # r))"
| "parse_elements 0 acc cs = None"
| "parse_elements (Suc n) acc cs =
     (case parse_value n cs of
        None \<Rightarrow> None
      | Some (v, r) \<Rightarrow>
          (case skip_ws r of
             [] \<Rightarrow> None
           | c # r' \<Rightarrow>
               if c = CHR '','' then parse_elements n (acc @ [v]) r'
               else if c = CHR '']'' then Some (JArr (acc @ [v]), r')
               else None))"
| "parse_members 0 acc cs = None"
| "parse_members (Suc n) acc cs =
     (case skip_ws cs of
        [] \<Rightarrow> None
      | c # r \<Rightarrow>
          if c \<noteq> dquote then None
          else
            (case parse_chars r of
               None \<Rightarrow> None
             | Some (k, r1) \<Rightarrow>
                 (case skip_ws r1 of
                    [] \<Rightarrow> None
                  | c1 # r2 \<Rightarrow>
                      if c1 \<noteq> CHR '':'' then None
                      else
                        (case parse_value n r2 of
                           None \<Rightarrow> None
                         | Some (v, r3) \<Rightarrow>
                             (case skip_ws r3 of
                                [] \<Rightarrow> None
                              | c3 # r4 \<Rightarrow>
                                  if c3 = CHR '','' then parse_members n (AList.update k v acc) r4
                                  else if c3 = CHR ''}'' then Some (JObj (AList.update k v acc), r4)
                                  else None)))))"

definition JSON_parse :: "string \<Rightarrow> error + json" where
  "JSON_parse text =
     (case parse_value (Suc (length text)) text of
        None \<Rightarrow> Inl SyntaxError
      | Some (v, r) \<Rightarrow> if skip_ws r = [] then Inr v else Inl SyntaxError)"

section \<open>Comparator\<close>

definition equalJSON :: "json \<Rightarrow> json \<Rightarrow> bool" where
  "equalJSON obj1 obj2 = (JSON_stringify obj1 = JSON_stringify obj2)"

text \<open>
  \<^verbatim>\<open>a === b\<close>. On primitives it compares values. On objects and arrays it compares
  identities, which a tree does not carry; the model answers false there and goes on to
  the structural comparison, which is true of equal trees (\<open>deepEqualHelper_refl\<close>
  below), as the shortcut would be.
\<close>

definition strict_equal :: "json \<Rightarrow> json \<Rightarrow> bool" where
  "strict_equal a b = (\<not> typeof_object a \<and> a = b)"

fun is_array :: "json \<Rightarrow> bool" where
  "is_array (JArr xs) = True"
| "is_array v = False"

fun elements :: "json \<Rightarrow> json list" where
  "elements (JArr xs) = xs"
| "elements v = []"

text \<open>\<^verbatim>\<open>Object.keys(v)\<close> for a value that is not \<^verbatim>\<open>null\<close>.\<close>

definition object_keys :: "json \<Rightarrow> string list" where
  "object_keys v = map fst (entries v)"

lemma size_member: "(k, x) \<in> set kvs \<Longrightarrow> size x < size (JObj kvs)"
proof -
  assume "(k, x) \<in> set kvs"
  then have "size x < Suc (size_list (size_prod (\<lambda>_. 0) size) kvs)"
    by (induction kvs) auto
  then show ?thesis by simp
qed

lemma size_elements: "is_array a \<Longrightarrow> x \<in> set (elements a) \<Longrightarrow> size x < size a"
  by (cases a) (simp_all add: size_list_estimation' less_Suc_eq_le)

lemma size_get_prop: "typeof_object a \<Longrightarrow> get_prop a k = Some x \<Longrightarrow> size x < size a"
proof (cases a)
  case (JArr xs)
  assume "get_prop a k = Some x"
  with JArr have "x = JNum (int (length xs)) \<or> x \<in> set xs"
    by (auto simp: array_index_Some split: if_splits)
  then show ?thesis using JArr by (auto simp: size_list_estimation' less_Suc_eq_le)
next
  case (JObj kvs)
  assume "get_prop a k = Some x"
  with JObj have "(k, x) \<in> set kvs" by (simp add: map_of_SomeD)
  then show ?thesis using JObj size_member by simp
qed simp_all

function deepEqualHelper :: "json \<Rightarrow> json \<Rightarrow> bool" where
  "deepEqualHelper a b =
     (if strict_equal a b then True
      else if is_array a \<and> is_array b then
        (if length (elements a) \<noteq> length (elements b) then False
         else list_all (\<lambda>(item, index). deepEqualHelper item (elements b ! index))
                (zip (elements a) [0..<length (elements a)]))
      else if typeof_object a \<and> typeof_object b then
        (let keysA = object_keys a; keysB = object_keys b
         in if length keysA \<noteq> length keysB then False
            else list_all
                   (\<lambda>key. key \<in> set keysB \<and>
                      (case (get_prop a key, get_prop b key) of
                         (Some x, Some y) \<Rightarrow> deepEqualHelper x y
                       | (None, None) \<Rightarrow> True
                       | _ \<Rightarrow> False))
                   keysA)
      else False)"
  by pat_completeness auto
termination
  by (relation "measure (\<lambda>(a, b). size a)")
     (auto simp: size_get_prop dest: set_zip_leftD intro: size_elements)

declare deepEqualHelper.simps [simp del]

definition deepEqualJSON :: "json \<Rightarrow> json \<Rightarrow> bool" where
  "deepEqualJSON obj1 obj2 = deepEqualHelper obj1 obj2"

section \<open>Combiner\<close>

subsection \<open>deepMerge\<close>

text \<open>
  \<^verbatim>\<open>s.slice(1, -1)\<close> drops the first and the last character: \<open>butlast (tl s)\<close>. The
  \<^verbatim>\<open>catch\<close> returns \<open>target\<close>.
\<close>

definition deepMerge :: "json \<Rightarrow> json \<Rightarrow> json" where
  "deepMerge target source =
     (let targetClone = JSON_stringify target;
          sourceClone = JSON_stringify source
      in case JSON_parse (''{'' @ butlast (tl targetClone) @ '','' @ butlast (tl sourceClone) @ ''}'') of
           Inr merged \<Rightarrow> merged
         | Inl e \<Rightarrow> target)"

subsection \<open>Objects as association lists\<close>

lemma update_fresh: "k \<notin> fst ` set al \<Longrightarrow> AList.update k v al = al @ [(k, v)]"
  by (induction al) auto

lemma update_swap_present:
  "k \<in> fst ` set al \<Longrightarrow> k \<noteq> k' \<Longrightarrow>
   AList.update k v (AList.update k' v' al) = AList.update k' v' (AList.update k v al)"
  by (induction al) auto

lemma create_properties_Nil [simp]: "create_properties acc [] = acc"
  by (simp add: create_properties_def)

lemma create_properties_Cons [simp]:
  "create_properties acc ((k, v) # es) = create_properties (AList.update k v acc) es"
  by (simp add: create_properties_def)

lemma create_properties_append:
  "create_properties acc (xs @ ys) = create_properties (create_properties acc xs) ys"
  by (simp add: create_properties_def)

lemma keys_create_properties:
  "fst ` set (create_properties acc es) = fst ` set acc \<union> fst ` set es"
proof (induction es arbitrary: acc)
  case Nil
  then show ?case by simp
next
  case (Cons e es)
  obtain k v where e: "e = (k, v)" by (cases e)
  have "fst ` set (create_properties (AList.update k v acc) es) =
        fst ` set (AList.update k v acc) \<union> fst ` set es"
    by (rule Cons.IH)
  then show ?case by (simp add: e dom_update)
qed

lemma distinct_create_properties:
  "distinct (map fst acc) \<Longrightarrow> distinct (map fst (create_properties acc es))"
  by (induction es arbitrary: acc) (auto simp: distinct_update)

lemma map_of_create_properties:
  "map_of (create_properties acc es) = map_of acc ++ map_of (rev es)"
  by (induction es arbitrary: acc) (auto simp: update_conv' map_add_def fun_eq_iff split: option.splits)

lemma update_create_properties:
  "k \<in> fst ` set A \<Longrightarrow> k \<notin> fst ` set B \<Longrightarrow>
   AList.update k v (create_properties A B) = create_properties (AList.update k v A) B"
proof (induction B arbitrary: A)
  case Nil
  then show ?case by simp
next
  case (Cons e B)
  obtain k' w where e: "e = (k', w)" by (cases e)
  from Cons.prems e have ne: "k \<noteq> k'" and nB: "k \<notin> fst ` set B" by auto
  from Cons.prems have "k \<in> fst ` set (AList.update k' w A)" by (simp add: dom_update)
  from Cons.IH [OF this nB]
  show ?case using e update_swap_present [OF Cons.prems(1) ne, of v w] by simp
qed

lemma create_properties_update:
  "distinct (map fst B) \<Longrightarrow>
   create_properties acc (AList.update k v B) = AList.update k v (create_properties acc B)"
proof (induction B arbitrary: acc)
  case Nil
  then show ?case by simp
next
  case (Cons e B)
  obtain k' w where e: "e = (k', w)" by (cases e)
  show ?case
  proof (cases "k' = k")
    case True
    with Cons.prems e have nB: "k \<notin> fst ` set B" by auto
    have "k \<in> fst ` set (AList.update k w acc)" by (simp add: dom_update)
    from update_create_properties [OF this nB, of v]
    show ?thesis using True e by simp
  next
    case False
    with Cons e show ?thesis by simp
  qed
qed

lemma create_properties_from_entries:
  "create_properties acc (from_entries es) = create_properties acc es"
proof (induction es rule: rev_induct)
  case Nil
  then show ?case by (simp add: from_entries_def)
next
  case (snoc e es)
  obtain k v where e: "e = (k, v)" by (cases e)
  have d: "distinct (map fst (from_entries es))"
    by (simp add: from_entries_def distinct_create_properties)
  have "from_entries (es @ [e]) = AList.update k v (from_entries es)"
    by (simp add: from_entries_def create_properties_append e)
  then show ?case
    using snoc e by (simp add: create_properties_update [OF d] create_properties_append)
qed

lemma create_properties_distinct:
  "distinct (map fst (acc @ es)) \<Longrightarrow> create_properties acc es = acc @ es"
proof (induction es arbitrary: acc)
  case Nil
  then show ?case by simp
next
  case (Cons e es)
  obtain k v where e: "e = (k, v)" by (cases e)
  from Cons.prems e have "k \<notin> fst ` set acc" by auto
  then have u: "AList.update k v acc = acc @ [(k, v)]" by (rule update_fresh)
  from Cons.prems e have "distinct (map fst ((acc @ [(k, v)]) @ es))" by auto
  from Cons.IH [OF this] show ?case using e u by simp
qed

lemma from_entries_distinct: "distinct (map fst es) \<Longrightarrow> from_entries es = es"
  using create_properties_distinct [of "[]" es] by (simp add: from_entries_def)

subsection \<open>Parsing a serialised value\<close>

text \<open>
  The recursion of \<open>deepUpdate\<close> below runs through \<open>JSON_parse\<close> of
  \<open>JSON_stringify\<close>; its termination needs to know what that gives.
\<close>

lemma hex_val_hex_digit: "d < 16 \<Longrightarrow> hex_val (hex_digit d) = Some d"
proof -
  assume "d < 16"
  then have "d \<in> {0, 1, 2, 3, 4, 5, 6, 7, 8, 9, 10, 11, 12, 13, 14, 15}"
    unfolding insert_iff empty_iff by presburger
  then show ?thesis by (auto simp: hex_val_def hex_digit_def)
qed

lemma hex_val_zero: "hex_val (CHR ''0'') = Some 0"
  by (simp add: hex_val_def)

lemma hex4_control:
  assumes "(of_char c :: nat) < 32"
  shows "hex4 (CHR ''0'') (CHR ''0'') (hex_digit (of_char c div 16)) (hex_digit (of_char c mod 16)) = Some c"
proof -
  let ?n = "of_char c :: nat"
  have a: "hex_val (hex_digit (?n div 16)) = Some (?n div 16)"
    using assms by (intro hex_val_hex_digit) simp
  have b: "hex_val (hex_digit (?n mod 16)) = Some (?n mod 16)"
    by (intro hex_val_hex_digit) simp
  have "16 * (?n div 16) + ?n mod 16 = ?n" by simp
  then show ?thesis using assms by (simp add: hex4_def a b hex_val_zero)
qed

lemma parse_chars_escape:
  "parse_chars (escape_char c @ cs) = map_option (\<lambda>(s, r). (c # s, r)) (parse_chars cs)"
proof (cases "(of_char c :: nat) < 32")
  case True
  then have "c \<noteq> dquote" "c \<noteq> backslash" by auto
  with True show ?thesis
    by (auto simp: escape_char_def unescape_def hex4_control)
next
  case False
  then show ?thesis
    by (auto simp: escape_char_def unescape_def)
qed

lemma parse_chars_quote_body:
  "parse_chars (concat (map escape_char s) @ dquote # rest) = Some (s, rest)"
  by (induction s) (simp_all add: parse_chars_escape)

text \<open>What may follow a value inside a text written by \<open>JSON_stringify\<close>.\<close>

definition delimited :: "string \<Rightarrow> bool" where
  "delimited rest = (rest = [] \<or> hd rest \<in> set '',]}'')"

lemma show_nat_hd_nonzero: "0 < n \<Longrightarrow> hd (show_nat n) \<noteq> CHR ''0''"
proof (induction n rule: show_nat.induct)
  case (1 n)
  show ?case
  proof (cases "n < 10")
    case True
    with "1.prems" have "n \<in> {1, 2, 3, 4, 5, 6, 7, 8, 9}"
      unfolding insert_iff empty_iff by presburger
    then show ?thesis
      by (subst show_nat.simps) (auto simp: digit_char_def)
  next
    case False
    then have "0 < n div 10" by simp
    with 1 False have "hd (show_nat (n div 10)) \<noteq> CHR ''0''" by simp
    with False show ?thesis
      by (subst show_nat.simps) (simp add: show_nat_not_Nil)
  qed
qed

lemma show_nat_length_one: "n < 10 \<Longrightarrow> length (show_nat n) = 1"
  by (subst show_nat.simps) simp

lemma show_nat_no_leading_zero:
  "\<not> (1 < length (show_nat n) \<and> hd (show_nat n) = CHR ''0'')"
proof (cases "n = 0")
  case True
  then show ?thesis by (simp add: show_nat_length_one)
next
  case False
  then show ?thesis using show_nat_hd_nonzero [of n] by simp
qed

lemma is_digit_not_minus: "is_digit c \<Longrightarrow> c \<noteq> CHR ''-''"
  by (auto simp: is_digit_def)

lemma show_nat_hd_digit: "is_digit (hd (show_nat n))"
  using show_nat_digits [of n] show_nat_not_Nil [of n]
  by (cases "show_nat n") simp_all

lemma delimited_not_digit: "delimited rest \<Longrightarrow> takeWhile is_digit rest = [] \<and> dropWhile is_digit rest = rest"
  by (cases rest) (auto simp: delimited_def is_digit_def)

lemma delimited_not_frac: "delimited rest \<Longrightarrow> \<not> (rest \<noteq> [] \<and> hd rest \<in> set ''.eE'')"
  by (cases rest) (auto simp: delimited_def)

lemma digits_show_nat_append:
  "delimited rest \<Longrightarrow>
   takeWhile is_digit (show_nat n @ rest) = show_nat n \<and>
   dropWhile is_digit (show_nat n @ rest) = rest"
  using show_nat_digits [of n]
  by (simp add: takeWhile_append2 dropWhile_append2 list_all_iff delimited_not_digit)

lemma parse_number_show_nat:
  assumes "delimited rest"
  shows "parse_number (show_nat n @ rest) = Some (JNum (int n), rest)"
proof -
  have nm: "hd (show_nat n @ rest) \<noteq> CHR ''-''"
    using show_nat_hd_digit [of n] show_nat_not_Nil [of n] is_digit_not_minus
    by (simp add: hd_append)
  show ?thesis
    using nm digits_show_nat_append [OF assms, of n] delimited_not_frac [OF assms]
      show_nat_no_leading_zero [of n]
    by (simp add: parse_number_def Let_def show_nat_not_Nil read_nat_show_nat)
qed

lemma parse_number_show_int:
  assumes "delimited rest"
  shows "parse_number (show_int i @ rest) = Some (JNum i, rest)"
proof (cases "i < 0")
  case False
  then show ?thesis using parse_number_show_nat [OF assms, of "nat i"]
    by (simp add: show_int_def)
next
  case True
  then show ?thesis
    using digits_show_nat_append [OF assms, of "nat (- i)"] delimited_not_frac [OF assms]
      show_nat_no_leading_zero [of "nat (- i)"]
    by (simp add: show_int_def parse_number_def Let_def show_nat_not_Nil read_nat_show_nat)
qed

lemma show_int_not_Nil: "show_int i \<noteq> []"
  by (simp add: show_int_def show_nat_not_Nil)

lemma show_int_hd: "hd (show_int i) = CHR ''-'' \<or> is_digit (hd (show_int i))"
  by (simp add: show_int_def show_nat_hd_digit)

lemma skip_ws_Cons: "\<not> is_ws c \<Longrightarrow> skip_ws (c # cs) = c # cs"
  by (simp add: skip_ws_def)

lemma parse_value_number:
  assumes "delimited rest"
  shows "parse_value (Suc n) (show_int i @ rest) = Some (JNum i, rest)"
proof -
  obtain c cs where s: "show_int i = c # cs"
    using show_int_not_Nil [of i] by (cases "show_int i") auto
  with show_int_hd [of i] have c: "c = CHR ''-'' \<or> is_digit c" by simp
  then have "\<not> is_ws c" "c \<noteq> CHR ''{''" "c \<noteq> CHR ''[''" "c \<noteq> dquote"
    "c \<noteq> CHR ''t''" "c \<noteq> CHR ''f''" "c \<noteq> CHR ''n''"
    by (auto simp: is_digit_def is_ws_def)
  then have "parse_value (Suc n) ((c # cs) @ rest) = parse_number ((c # cs) @ rest)"
    by (simp add: skip_ws_Cons)
  then show ?thesis using s parse_number_show_int [OF assms, of i] by simp
qed

lemma parse_value_string:
  "parse_value (Suc n) (quote s @ rest) = Some (JStr s, rest)"
  by (simp add: quote_def skip_ws_Cons is_ws_def parse_chars_quote_body)

lemma parse_value_null: "parse_value (Suc n) (''null'' @ rest) = Some (JNull, rest)"
  by (simp add: skip_ws_Cons is_ws_def)

lemma parse_value_bool:
  "parse_value (Suc n) ((if b then ''true'' else ''false'') @ rest) = Some (JBool b, rest)"
  by (simp add: skip_ws_Cons is_ws_def)

text \<open>
  What \<open>JSON_parse\<close> returns for the text of a value: when a text holds a key twice, the
  later value wins at the place of the first. On a value of JavaScript (\<open>wf_json\<close>)
  this is the value itself.
\<close>

fun norm :: "json \<Rightarrow> json" where
  "norm (JArr xs) = JArr (map norm xs)"
| "norm (JObj kvs) = JObj (from_entries (map (\<lambda>kv. (fst kv, norm (snd kv))) kvs))"
| "norm v = v"

definition member_text :: "string \<times> json \<Rightarrow> string" where
  "member_text kv = quote (fst kv) @ '':'' @ JSON_stringify (snd kv)"

lemma stringify_obj:
  "JSON_stringify (JObj kvs) = CHR ''{'' # join_with '','' (map member_text kvs) @ ''}''"
proof -
  have "(\<lambda>(k, v). quote k @ '':'' @ JSON_stringify v) = member_text"
    by (simp add: fun_eq_iff member_text_def)
  then show ?thesis by simp
qed

lemma join_with_Cons:
  "xs \<noteq> [] \<Longrightarrow> join_with sep (x # xs) = x @ sep @ join_with sep xs"
  by (cases xs) simp_all

lemma join_with_append:
  "xs \<noteq> [] \<Longrightarrow> ys \<noteq> [] \<Longrightarrow> join_with sep (xs @ ys) = join_with sep xs @ sep @ join_with sep ys"
proof (induction xs)
  case Nil
  then show ?case by simp
next
  case (Cons x xs)
  then show ?case by (cases "xs = []") (simp_all add: join_with_Cons)
qed

lemma stringify_start:
  "\<exists>c cs. JSON_stringify v = c # cs \<and> \<not> is_ws c \<and> c \<noteq> CHR '']'' \<and> c \<noteq> CHR ''}''"
proof (cases v)
  case (JNum i)
  obtain c cs where s: "show_int i = c # cs"
    using show_int_not_Nil [of i] by (cases "show_int i") auto
  with show_int_hd [of i] have "c = CHR ''-'' \<or> is_digit c" by simp
  then have "\<not> is_ws c \<and> c \<noteq> CHR '']'' \<and> c \<noteq> CHR ''}''"
    by (auto simp: is_digit_def is_ws_def)
  with JNum s show ?thesis by simp
qed (auto simp: is_ws_def quote_def)

lemma stringify_length: "1 \<le> length (JSON_stringify v)"
  using stringify_start [of v] by auto

lemma delimited_simps [simp]:
  "delimited []" "delimited (CHR '','' # cs)" "delimited (CHR '']'' # cs)" "delimited (CHR ''}'' # cs)"
  by (simp_all add: delimited_def)

lemma parse_elements_join:
  assumes IH: "\<And>x n rest. x \<in> set xs \<Longrightarrow> length (JSON_stringify x) \<le> n \<Longrightarrow> delimited rest \<Longrightarrow>
                 parse_value n (JSON_stringify x @ rest) = Some (norm x, rest)"
    and "xs \<noteq> []"
    and "length (join_with '','' (map JSON_stringify xs)) < n"
  shows "parse_elements n acc (join_with '','' (map JSON_stringify xs) @ CHR '']'' # rest)
         = Some (JArr (acc @ map norm xs), rest)"
  using assms
proof (induction xs arbitrary: n acc)
  case Nil
  then show ?case by simp
next
  case (Cons x xs)
  from Cons.prems(3) obtain m where n: "n = Suc m" by (cases n) auto
  have px: "\<And>r. length (JSON_stringify x) \<le> m \<Longrightarrow> delimited r \<Longrightarrow>
              parse_value m (JSON_stringify x @ r) = Some (norm x, r)"
    using Cons.prems(1) [of x] by simp
  show ?case
  proof (cases "xs = []")
    case True
    with Cons.prems(3) n have "length (JSON_stringify x) \<le> m" by simp
    from px [OF this, of "CHR '']'' # rest"] True n show ?thesis
      by (simp add: skip_ws_Cons is_ws_def)
  next
    case False
    from False Cons.prems(3) n stringify_length [of x]
    have l1: "length (JSON_stringify x) \<le> m"
      and l2: "length (join_with '','' (map JSON_stringify xs)) < m"
      by (simp_all add: join_with_Cons)
    have IHxs: "parse_elements m (acc @ [norm x])
                  (join_with '','' (map JSON_stringify xs) @ CHR '']'' # rest)
                = Some (JArr ((acc @ [norm x]) @ map norm xs), rest)"
      by (rule Cons.IH) (use Cons.prems(1) False l2 in auto)
    from px [OF l1, of "CHR '','' # join_with '','' (map JSON_stringify xs) @ CHR '']'' # rest"]
    show ?thesis using False n IHxs
      by (simp add: join_with_Cons skip_ws_Cons is_ws_def)
  qed
qed

lemma parse_members_join:
  assumes IH: "\<And>k v n rest. (k, v) \<in> set kvs \<Longrightarrow> length (JSON_stringify v) \<le> n \<Longrightarrow> delimited rest \<Longrightarrow>
                 parse_value n (JSON_stringify v @ rest) = Some (norm v, rest)"
    and "kvs \<noteq> []"
    and "length (join_with '','' (map member_text kvs)) < n"
  shows "parse_members n acc (join_with '','' (map member_text kvs) @ CHR ''}'' # rest)
         = Some (JObj (create_properties acc (map (\<lambda>kv. (fst kv, norm (snd kv))) kvs)), rest)"
  using assms
proof (induction kvs arbitrary: n acc)
  case Nil
  then show ?case by simp
next
  case (Cons e kvs)
  obtain k v where e: "e = (k, v)" by (cases e)
  from Cons.prems(3) obtain m where n: "n = Suc m" by (cases n) auto
  have pv: "\<And>r. length (JSON_stringify v) \<le> m \<Longrightarrow> delimited r \<Longrightarrow>
              parse_value m (JSON_stringify v @ r) = Some (norm v, r)"
    using Cons.prems(1) [of k v] e by simp
  have key: "\<And>r. parse_members (Suc m) acc (member_text (k, v) @ r)
             = (case parse_value m (JSON_stringify v @ r) of
                  None \<Rightarrow> None
                | Some (v', r3) \<Rightarrow>
                    (case skip_ws r3 of
                       [] \<Rightarrow> None
                     | c3 # r4 \<Rightarrow>
                         if c3 = CHR '','' then parse_members m (AList.update k v' acc) r4
                         else if c3 = CHR ''}'' then Some (JObj (AList.update k v' acc), r4)
                         else None))"
    by (simp add: member_text_def quote_def skip_ws_Cons is_ws_def parse_chars_quote_body)
  show ?case
  proof (cases "kvs = []")
    case True
    with Cons.prems(3) n e have "length (JSON_stringify v) \<le> m"
      by (simp add: member_text_def)
    from pv [OF this, of "CHR ''}'' # rest"]
    have "(case parse_value m (JSON_stringify v @ CHR ''}'' # rest) of
                  None \<Rightarrow> None
                | Some (v', r3) \<Rightarrow>
                    (case skip_ws r3 of
                       [] \<Rightarrow> None
                     | c3 # r4 \<Rightarrow>
                         if c3 = CHR '','' then parse_members m (AList.update k v' acc) r4
                         else if c3 = CHR ''}'' then Some (JObj (AList.update k v' acc), r4)
                         else None)) = Some (JObj (AList.update k (norm v) acc), rest)"
      by (simp add: skip_ws_Cons is_ws_def)
    then have "parse_members (Suc m) acc (member_text (k, v) @ CHR ''}'' # rest)
               = Some (JObj (AList.update k (norm v) acc), rest)"
      by (simp only: key)
    with True n e show ?thesis by simp
  next
    case False
    have lm: "length (JSON_stringify v) < length (member_text (k, v))"
      by (simp add: member_text_def)
    from False Cons.prems(3) n e lm
    have l1: "length (JSON_stringify v) \<le> m"
      and l2: "length (join_with '','' (map member_text kvs)) < m"
      by (simp_all add: join_with_Cons)
    have IHkvs: "parse_members m (AList.update k (norm v) acc)
                  (join_with '','' (map member_text kvs) @ CHR ''}'' # rest)
                = Some (JObj (create_properties (AList.update k (norm v) acc)
                                (map (\<lambda>kv. (fst kv, norm (snd kv))) kvs)), rest)"
      by (rule Cons.IH) (use Cons.prems(1) False l2 in auto)
    from pv [OF l1, of "CHR '','' # join_with '','' (map member_text kvs) @ CHR ''}'' # rest"] IHkvs
    have "(case parse_value m (JSON_stringify v @ CHR '','' # join_with '','' (map member_text kvs) @ CHR ''}'' # rest) of
                  None \<Rightarrow> None
                | Some (v', r3) \<Rightarrow>
                    (case skip_ws r3 of
                       [] \<Rightarrow> None
                     | c3 # r4 \<Rightarrow>
                         if c3 = CHR '','' then parse_members m (AList.update k v' acc) r4
                         else if c3 = CHR ''}'' then Some (JObj (AList.update k v' acc), r4)
                         else None))
          = Some (JObj (create_properties (AList.update k (norm v) acc)
                                (map (\<lambda>kv. (fst kv, norm (snd kv))) kvs)), rest)"
      by (simp add: skip_ws_Cons is_ws_def)
    then have "parse_members (Suc m) acc
                 (member_text (k, v) @ CHR '','' # join_with '','' (map member_text kvs) @ CHR ''}'' # rest)
          = Some (JObj (create_properties (AList.update k (norm v) acc)
                                (map (\<lambda>kv. (fst kv, norm (snd kv))) kvs)), rest)"
      by (simp only: key)
    with False n e show ?thesis by (simp add: join_with_Cons)
  qed
qed

lemma parse_value_stringify:
  "length (JSON_stringify v) \<le> n \<Longrightarrow> delimited rest \<Longrightarrow>
   parse_value n (JSON_stringify v @ rest) = Some (norm v, rest)"
proof (induction v arbitrary: n rest rule: measure_induct_rule [where f = size])
  case (less v)
  from less.prems(1) stringify_length [of v] obtain m where n: "n = Suc m"
    by (cases n) auto
  show ?case
  proof (cases v)
    case JNull
    with n show ?thesis using parse_value_null [of m rest] by simp
  next
    case (JBool b)
    with n show ?thesis using parse_value_bool [of m b rest] by simp
  next
    case (JNum i)
    with n show ?thesis using parse_value_number [OF less.prems(2), of m i] by simp
  next
    case (JStr s)
    with n show ?thesis using parse_value_string [of m s rest] by simp
  next
    case (JArr xs)
    show ?thesis
    proof (cases "xs = []")
      case True
      with JArr n show ?thesis by (simp add: skip_ws_Cons is_ws_def)
    next
      case False
      have sz: "\<And>x. x \<in> set xs \<Longrightarrow> size x < size v"
        using JArr by (simp add: size_list_estimation' less_Suc_eq_le)
      have el: "parse_elements m [] (join_with '','' (map JSON_stringify xs) @ CHR '']'' # rest)
                = Some (JArr ([] @ map norm xs), rest)"
      proof (rule parse_elements_join)
        show "xs \<noteq> []" by (rule False)
        show "length (join_with '','' (map JSON_stringify xs)) < m"
          using less.prems(1) JArr n by simp
        show "parse_value n' (JSON_stringify x @ r) = Some (norm x, r)"
          if "x \<in> set xs" "length (JSON_stringify x) \<le> n'" "delimited r" for x n' r
          using less.IH [OF sz [OF that(1)] that(2) that(3)] .
      qed
      obtain y ys where xs: "xs = y # ys" using False by (cases xs) auto
      obtain c cs where st: "JSON_stringify y = c # cs" "\<not> is_ws c" "c \<noteq> CHR '']''"
        using stringify_start [of y] by blast
      have "\<exists>d r'. skip_ws (join_with '','' (map JSON_stringify xs) @ CHR '']'' # rest) = d # r'
              \<and> d \<noteq> CHR '']''"
        using st xs by (cases ys) (simp_all add: skip_ws_Cons)
      then obtain d r' where
        sk: "skip_ws (join_with '','' (map JSON_stringify xs) @ CHR '']'' # rest) = d # r'"
        and d: "d \<noteq> CHR '']''" by blast
      show ?thesis using JArr n el sk d
        by (simp add: skip_ws_Cons is_ws_def)
    qed
  next
    case (JObj kvs)
    show ?thesis
    proof (cases "kvs = []")
      case True
      with JObj n show ?thesis by (simp add: skip_ws_Cons is_ws_def from_entries_def)
    next
      case False
      have "size x < Suc (size_list (size_prod (\<lambda>_. 0) size) kvs)" if "(k, x) \<in> set kvs" for k x
        using that by (induction kvs) auto
      then have sz: "\<And>k x. (k, x) \<in> set kvs \<Longrightarrow> size x < size v"
        using JObj by simp
      have me: "parse_members m [] (join_with '','' (map member_text kvs) @ CHR ''}'' # rest)
                = Some (JObj (create_properties [] (map (\<lambda>kv. (fst kv, norm (snd kv))) kvs)), rest)"
      proof (rule parse_members_join)
        show "kvs \<noteq> []" by (rule False)
        show "length (join_with '','' (map member_text kvs)) < m"
          using less.prems(1) n unfolding JObj stringify_obj by simp
        show "parse_value n' (JSON_stringify x @ r) = Some (norm x, r)"
          if "(k, x) \<in> set kvs" "length (JSON_stringify x) \<le> n'" "delimited r" for k x n' r
          using less.IH [OF sz [OF that(1)] that(2) that(3)] .
      qed
      obtain e es where kvs: "kvs = e # es" using False by (cases kvs) auto
      have "\<exists>d r'. skip_ws (join_with '','' (map member_text kvs) @ CHR ''}'' # rest) = d # r'
              \<and> d \<noteq> CHR ''}''"
        using kvs by (cases es) (simp_all add: skip_ws_Cons member_text_def quote_def is_ws_def)
      then obtain d r' where
        sk: "skip_ws (join_with '','' (map member_text kvs) @ CHR ''}'' # rest) = d # r'"
        and d: "d \<noteq> CHR ''}''" by blast
      have "parse_value (Suc m) (CHR ''{'' # join_with '','' (map member_text kvs) @ CHR ''}'' # rest)
            = Some (JObj (from_entries (map (\<lambda>kv. (fst kv, norm (snd kv))) kvs)), rest)"
        using me sk d by (simp add: skip_ws_Cons is_ws_def from_entries_def)
      then show ?thesis using JObj n by (simp only: stringify_obj norm.simps) simp
    qed
  qed
qed

lemma JSON_parse_stringify: "JSON_parse (JSON_stringify v) = Inr (norm v)"
  using parse_value_stringify [of v "Suc (length (JSON_stringify v))" "[]"]
  by (simp add: JSON_parse_def skip_ws_def)

lemma norm_wf_json: "wf_json v \<Longrightarrow> norm v = v"
proof (induction v rule: measure_induct_rule [where f = size])
  case (less v)
  show ?case
  proof (cases v)
    case (JArr xs)
    have "map norm xs = xs"
    proof (rule map_idI)
      fix x assume x: "x \<in> set xs"
      then have "size x < size v" using JArr by (simp add: size_list_estimation' less_Suc_eq_le)
      moreover have "wf_json x" using less.prems JArr x by (simp add: list_all_iff)
      ultimately show "norm x = x" by (rule less.IH)
    qed
    with JArr show ?thesis by simp
  next
    case (JObj kvs)
    have "size x < Suc (size_list (size_prod (\<lambda>_. 0) size) kvs)" if "(k, x) \<in> set kvs" for k x
      using that by (induction kvs) auto
    then have sz: "\<And>k x. (k, x) \<in> set kvs \<Longrightarrow> size x < size v"
      using JObj by simp
    have "map (\<lambda>kv. (fst kv, norm (snd kv))) kvs = kvs"
    proof (rule map_idI)
      fix kv assume kv: "kv \<in> set kvs"
      then have "size (snd kv) < size v" using sz [of "fst kv" "snd kv"] by simp
      moreover have "wf_json (snd kv)" using less.prems JObj kv by (simp add: list_all_iff)
      ultimately have "norm (snd kv) = snd kv" by (rule less.IH)
      then show "(fst kv, norm (snd kv)) = kv" by simp
    qed
    moreover have "distinct (map fst kvs)" using less.prems JObj by simp
    ultimately show ?thesis using JObj by (simp add: from_entries_distinct)
  qed simp_all
qed

lemma size_list_update:
  "size_list f (AList.update k v al) \<le> size_list f al + Suc (f (k, v))"
  by (induction al) auto

lemma size_list_create_properties:
  "size_list f (create_properties acc es) \<le> size_list f acc + size_list f es"
proof (induction es arbitrary: acc)
  case Nil
  then show ?case by simp
next
  case (Cons e es)
  obtain k v where e: "e = (k, v)" by (cases e)
  have "size_list f (create_properties (AList.update k v acc) es)
        \<le> size_list f (AList.update k v acc) + size_list f es"
    by (rule Cons.IH)
  with size_list_update [of f k v acc] show ?case using e by simp
qed

lemma size_norm: "size (norm v) \<le> size v"
proof (induction v rule: measure_induct_rule [where f = size])
  case (less v)
  show ?case
  proof (cases v)
    case (JArr xs)
    have "size_list size (map norm xs) \<le> size_list size xs"
      unfolding size_list_map
    proof (rule size_list_pointwise)
      fix x assume "x \<in> set xs"
      then have "size x < size v" using JArr by (simp add: size_list_estimation' less_Suc_eq_le)
      then show "(size \<circ> norm) x \<le> size x" using less.IH by simp
    qed
    with JArr show ?thesis by simp
  next
    case (JObj kvs)
    have "size x < Suc (size_list (size_prod (\<lambda>_. 0) size) kvs)" if "(k, x) \<in> set kvs" for k x
      using that by (induction kvs) auto
    then have sz: "\<And>k x. (k, x) \<in> set kvs \<Longrightarrow> size x < size v"
      using JObj by simp
    have "size_list (size_prod (\<lambda>_. 0) size) (map (\<lambda>kv. (fst kv, norm (snd kv))) kvs)
          \<le> size_list (size_prod (\<lambda>_. 0) size) kvs"
      unfolding size_list_map
    proof (rule size_list_pointwise)
      fix kv assume "kv \<in> set kvs"
      then have "size (snd kv) < size v" using sz [of "fst kv" "snd kv"] by simp
      then have "size (norm (snd kv)) \<le> size (snd kv)" using less.IH by simp
      then show "(size_prod (\<lambda>_. 0) size \<circ> (\<lambda>kv. (fst kv, norm (snd kv)))) kv
                 \<le> size_prod (\<lambda>_. 0) size kv"
        by (cases kv) simp
    qed
    moreover have "size_list (size_prod (\<lambda>_. 0) size)
                     (from_entries (map (\<lambda>kv. (fst kv, norm (snd kv))) kvs))
          \<le> size_list (size_prod (\<lambda>_. 0) size) (map (\<lambda>kv. (fst kv, norm (snd kv))) kvs)"
      using size_list_create_properties
          [of "size_prod (\<lambda>_. 0) size" "[]" "map (\<lambda>kv. (fst kv, norm (snd kv))) kvs"]
      by (simp add: from_entries_def del: size_list_map)
    ultimately show ?thesis using JObj by simp
  qed simp_all
qed

lemma size_parsed_entries:
  "JSON_parse (JSON_stringify updates) = Inr parsedUpdates \<Longrightarrow>
   (key, v) \<in> set (entries parsedUpdates) \<Longrightarrow> typeof_object v \<Longrightarrow> size v < size updates"
  using size_entries [of key v parsedUpdates] size_norm [of updates]
  by (simp add: JSON_parse_stringify)

lemma size_parsed_mapping:
  "JSON_parse (JSON_stringify updates) = Inr parsedUpdates \<Longrightarrow>
   (key, v) \<in> set (entries parsedUpdates) \<Longrightarrow> is_mapping v \<Longrightarrow> size v < size updates"
  by (rule size_parsed_entries) (auto elim: is_mapping.elims)

subsection \<open>deepUpdate\<close>

text \<open>\<^verbatim>\<open>{ ...v }\<close>: a new object with the own enumerable properties of \<open>v\<close>.\<close>

definition spread :: "json \<Rightarrow> object" where
  "spread v = entries v"

text \<open>
  \<^verbatim>\<open>acc[k] = v\<close> on the copy of the target. The key \<^verbatim>\<open>__proto__\<close>, when \<open>acc\<close> has no own
  member of that name, reaches the setter of \<^verbatim>\<open>Object.prototype\<close> (see \<open>set_prop\<close>): a
  value that is neither \<^verbatim>\<open>null\<close>, an object nor an array changes nothing; \<^verbatim>\<open>null\<close>, an
  object or an array becomes the prototype of \<open>acc\<close>. The result of \<open>deepUpdate\<close> is then
  an object with a prototype of its own, and it may sit inside other results; such
  objects are not values of the type \<open>json\<close>, and the model stops there with
  \<open>PrototypeReplaced\<close>.
\<close>

datatype unmodelled = PrototypeReplaced

definition assign_prop :: "string \<Rightarrow> json \<Rightarrow> object \<Rightarrow> unmodelled + object" where
  "assign_prop k v members =
     (if k = ''__proto__'' \<and> map_of members k = None
      then (if v = JNull \<or> typeof_object v then Inl PrototypeReplaced else Inr members)
      else Inr (AList.update k v members))"

text \<open>
  \<^verbatim>\<open>Object.keys(null)\<close> throws and the \<^verbatim>\<open>catch\<close> returns \<open>target\<close>. The reducer reads
  \<^verbatim>\<open>parsedUpdates[key]\<close> for each own key, that is, it runs over the entries.
  \<^verbatim>\<open>acc[key] || {}\<close> is the old member when there is one and it is truthy. Otherwise the
  recursive call starts from an object without members: from \<^verbatim>\<open>{}\<close>, or, when \<open>key\<close>
  names a property that \<open>acc\<close> inherits, from a built-in function or object, whose
  spread is as empty as that of \<^verbatim>\<open>{}\<close>. The replacer drops functions and \<^verbatim>\<open>undefined\<close>,
  neither of which is a value of the domain.
\<close>

function deepUpdate :: "json \<Rightarrow> json \<Rightarrow> unmodelled + json" where
  "deepUpdate target updates =
     (case JSON_parse (JSON_stringify updates) of
        Inl e \<Rightarrow> Inr target
      | Inr parsedUpdates \<Rightarrow>
          if parsedUpdates = JNull then Inr target
          else (case reduce
                 (\<lambda>acc (key, v).
                    if is_mapping v
                    then (case deepUpdate
                                 (case map_of acc key of
                                    None \<Rightarrow> JObj []
                                  | Some old \<Rightarrow> if truthy old then old else JObj [])
                                 v of
                            Inl e \<Rightarrow> Inl e
                          | Inr new \<Rightarrow> assign_prop key new acc)
                    else assign_prop key v acc)
                 (spread target) (entries parsedUpdates) of
                 Inl e \<Rightarrow> Inl e
               | Inr acc \<Rightarrow> Inr (JObj acc)))"
  by pat_completeness auto
termination
  by (relation "measure (\<lambda>(target, updates). size updates)")
     (auto intro: size_parsed_mapping)

declare deepUpdate.simps [simp del]

subsection \<open>deepUpdate on a store\<close>

text \<open>
  Whether \<open>deepUpdate\<close> returns a new object and leaves its target alone cannot be read
  off values. The method is therefore given a second time, on values held in a store,
  with the types \<open>hval\<close> and \<open>hobj\<close> of \<open>mergeUniqueByKey\<close>.
\<close>

text \<open>
  The objects and arrays live at the addresses \<open>0, 1, ...\<close> of the store; the object at
  address \<open>a\<close> is \<open>s ! a\<close>, and a new object is put at the first free address,
  \<open>length s\<close>. No address is ever freed.
\<close>

type_synonym store = "hobj list"

text \<open>\<^verbatim>\<open>{ ...v }\<close> in a store: the own enumerable properties of \<open>v\<close>, values as they are held.\<close>

fun hentries :: "store \<Rightarrow> hval \<Rightarrow> (string \<times> hval) list" where
  "hentries s (HRef a) =
     (if a < length s
      then case s ! a of HObj kvs \<Rightarrow> kvs | HArr xs \<Rightarrow> zip (index_keys (length xs)) xs
      else [])"
| "hentries s (HStr str) = zip (index_keys (length str)) (map (\<lambda>c. HStr [c]) str)"
| "hentries s v = []"

text \<open>
  The objects that \<^verbatim>\<open>JSON.parse\<close> creates for a value. They are put into the store when
  the reducer stores the value; the parsed objects that the method only reads are not
  represented.
\<close>

fun alloc_json :: "json \<Rightarrow> store \<Rightarrow> hval \<times> store"
  and alloc_elements :: "json list \<Rightarrow> store \<Rightarrow> hval list \<times> store"
  and alloc_members :: "(string \<times> json) list \<Rightarrow> store \<Rightarrow> (string \<times> hval) list \<times> store" where
  "alloc_json JNull s = (HNull, s)"
| "alloc_json (JBool b) s = (HBool b, s)"
| "alloc_json (JNum n) s = (HNum n, s)"
| "alloc_json (JStr x) s = (HStr x, s)"
| "alloc_json (JArr xs) s =
     (case alloc_elements xs s of (es, s') \<Rightarrow> (HRef (length s'), s' @ [HArr es]))"
| "alloc_json (JObj kvs) s =
     (case alloc_members kvs s of (ms, s') \<Rightarrow> (HRef (length s'), s' @ [HObj ms]))"
| "alloc_elements [] s = ([], s)"
| "alloc_elements (x # xs) s =
     (case alloc_json x s of (e, s1) \<Rightarrow>
        case alloc_elements xs s1 of (es, s2) \<Rightarrow> (e # es, s2))"
| "alloc_members [] s = ([], s)"
| "alloc_members ((k, v) # kvs) s =
     (case alloc_json v s of (e, s1) \<Rightarrow>
        case alloc_members kvs s1 of (ms, s2) \<Rightarrow> ((k, e) # ms, s2))"

text \<open>The own member \<open>k\<close> of the plain object at address \<open>a\<close>.\<close>

definition hmember :: "store \<Rightarrow> nat \<Rightarrow> string \<Rightarrow> hval option" where
  "hmember s a k = (case s ! a of HObj kvs \<Rightarrow> map_of kvs k | HArr xs \<Rightarrow> None)"

text \<open>
  \<^verbatim>\<open>acc[k] = x\<close> for \<open>acc\<close> at address \<open>a\<close>, as \<open>assign_prop\<close>; \<open>acc\<close> is the copy of the
  target, a plain object.
\<close>

fun is_ref :: "hval \<Rightarrow> bool" where
  "is_ref (HRef a) = True"
| "is_ref v = False"

definition hassign :: "nat \<Rightarrow> string \<Rightarrow> hval \<Rightarrow> store \<Rightarrow> unmodelled + store" where
  "hassign a k x s =
     (case s ! a of
        HObj kvs \<Rightarrow>
          if k = ''__proto__'' \<and> map_of kvs k = None
          then (if x = HNull \<or> is_ref x then Inl PrototypeReplaced else Inr s)
          else Inr (s[a := HObj (AList.update k x kvs)])
      | HArr xs \<Rightarrow> Inr s)"

text \<open>\<^verbatim>\<open>acc[key] || {}\<close>: the old member if it is truthy, a new empty object otherwise.\<close>

definition existing_or_new :: "nat \<Rightarrow> string \<Rightarrow> store \<Rightarrow> hval \<times> store" where
  "existing_or_new a key s =
     (case hmember s a key of
        None \<Rightarrow> (HRef (length s), s @ [HObj []])
      | Some old \<Rightarrow> if htruthy old then (old, s) else (HRef (length s), s @ [HObj []]))"

text \<open>
  The method itself. \<open>target\<close> is a value held in the store; \<open>updates\<close> is read only by
  \<^verbatim>\<open>JSON.stringify\<close> and is given by its value. The copy \<^verbatim>\<open>{ ...target }\<close> is put
  at the address \<open>length s\<close>, every assignment of the reducer writes there, and the call
  returns that address with the store it has left.
\<close>

function deepUpdate_s :: "store \<Rightarrow> hval \<Rightarrow> json \<Rightarrow> unmodelled + hval \<times> store" where
  "deepUpdate_s s target updates =
     (case JSON_parse (JSON_stringify updates) of
        Inl e \<Rightarrow> Inr (target, s)
      | Inr parsedUpdates \<Rightarrow>
          if parsedUpdates = JNull then Inr (target, s)
          else (case reduce
                 (\<lambda>s1 (key, v).
                    if is_mapping v
                    then (case existing_or_new (length s) key s1 of
                            (existing, s2) \<Rightarrow>
                              (case deepUpdate_s s2 existing v of
                                 Inl e \<Rightarrow> Inl e
                               | Inr (new, s3) \<Rightarrow> hassign (length s) key new s3))
                    else (case alloc_json v s1 of
                            (x, s2) \<Rightarrow> hassign (length s) key x s2))
                 (s @ [HObj (hentries s target)]) (entries parsedUpdates) of
                 Inl e \<Rightarrow> Inl e
               | Inr s' \<Rightarrow> Inr (HRef (length s), s')))"
  by pat_completeness auto
termination
  by (relation "measure (\<lambda>(s, target, updates). size updates)")
     (auto intro: size_parsed_mapping)

declare deepUpdate_s.simps [simp del]


section \<open>The search visits the tree in pre-order\<close>

text \<open>
  The objects and arrays of a tree in depth-first pre-order: the order in which the
  search visits them.
\<close>

fun nodes :: "json \<Rightarrow> json list" where
  "nodes (JObj kvs) = JObj kvs # concat (map (\<lambda>kv. nodes (snd kv)) kvs)"
| "nodes (JArr xs) = JArr xs # concat (map nodes xs)"
| "nodes v = []"

definition first_match :: "platform \<Rightarrow> string \<Rightarrow> json list \<Rightarrow> jsresult" where
  "first_match P key ns =
     (case find (\<lambda>n. has_in P key n = Inr True) ns of
        None \<Rightarrow> Undefined
      | Some n \<Rightarrow> read_prop P n key)"

lemma has_in_read_prop:
  "has_in P key n = Inr True \<Longrightarrow> read_prop P n key \<noteq> Undefined \<and> read_prop P n key \<noteq> Unknown"
  by (cases n)
     (auto simp: read_prop_def weak_map_of_SomeI map_of_eq_None_iff split: option.splits)

lemma has_in_typeof: "typeof_object n \<Longrightarrow> \<exists>b. has_in P key n = Inr b"
  by (cases n) auto

lemma first_match_Nil [simp]: "first_match P key [] = Undefined"
  by (simp add: first_match_def)

lemma first_match_Cons:
  "first_match P key (n # ns) =
     (if has_in P key n = Inr True then read_prop P n key else first_match P key ns)"
  by (simp add: first_match_def)

lemma first_match_append:
  "first_match P key (xs @ ys) =
     (case first_match P key xs of Undefined \<Rightarrow> first_match P key ys | r \<Rightarrow> r)"
  by (induction xs) (auto simp: first_match_Cons dest: has_in_read_prop split: jsresult.splits)

lemma first_match_Undefined:
  "first_match P key ns = Undefined \<longleftrightarrow> (\<forall>n\<in>set ns. has_in P key n \<noteq> Inr True)"
  by (induction ns) (auto simp: first_match_Cons dest: has_in_read_prop)

lemma nodes_not_object [simp]: "\<not> typeof_object v \<Longrightarrow> nodes v = []"
  by (cases v) auto

lemma map_snd_zip_index: "map snd (zip (index_keys (length xs)) xs) = xs"
  by (simp add: map_snd_zip)

lemma nodes_entries:
  "typeof_object obj \<Longrightarrow> nodes obj = obj # concat (map (\<lambda>kv. nodes (snd kv)) (entries obj))"
proof (cases obj)
  case (JArr xs)
  have "map (\<lambda>kv. nodes (snd kv)) (zip (index_keys (length xs)) xs)
        = map nodes (map snd (zip (index_keys (length xs)) xs))"
    by (simp only: map_map comp_def)
  with JArr show ?thesis by (simp add: map_snd_zip_index)
qed auto

lemma for_first_nodes:
  assumes "\<And>k v. (k, v) \<in> set es \<Longrightarrow> typeof_object v \<Longrightarrow>
             findValueByKey P v key = Inr (first_match P key (nodes v))"
  shows "for_first (\<lambda>(k, v). if typeof_object v then findValueByKey P v key else Inr Undefined) es
         = Inr (first_match P key (concat (map (\<lambda>kv. nodes (snd kv)) es)))"
  using assms
proof (induction es)
  case Nil
  then show ?case by simp
next
  case (Cons e es)
  obtain k v where e: "e = (k, v)" by (cases e)
  have IH: "for_first (\<lambda>(k, v). if typeof_object v then findValueByKey P v key else Inr Undefined) es
         = Inr (first_match P key (concat (map (\<lambda>kv. nodes (snd kv)) es)))"
  proof (rule Cons.IH)
    fix k' v' assume "(k', v') \<in> set es" "typeof_object v'"
    then show "findValueByKey P v' key = Inr (first_match P key (nodes v'))"
      using Cons.prems [of k' v'] by simp
  qed
  show ?case
  proof (cases "typeof_object v")
    case True
    then have "findValueByKey P v key = Inr (first_match P key (nodes v))"
      using Cons.prems [of k v] e by simp
    then show ?thesis using True e IH
      by (simp add: first_match_append split: jsresult.splits)
  next
    case False
    then show ?thesis using e IH by simp
  qed
qed

lemma findValueByKey_nodes:
  "typeof_object obj \<Longrightarrow> findValueByKey P obj key = Inr (first_match P key (nodes obj))"
proof (induction P obj key rule: findValueByKey.induct)
  case (1 P obj key)
  from has_in_typeof [OF "1.prems"] obtain b where b: "has_in P key obj = Inr b" by blast
  show ?case
  proof (cases b)
    case True
    with b "1.prems" show ?thesis
      by (subst findValueByKey.simps) (simp add: nodes_entries first_match_Cons)
  next
    case False
    have "for_first (\<lambda>(k, v). if typeof_object v then findValueByKey P v key else Inr Undefined)
            (entries obj)
         = Inr (first_match P key (concat (map (\<lambda>kv. nodes (snd kv)) (entries obj))))"
      by (rule for_first_nodes) (use "1.IH" b False in auto)
    with b False "1.prems" show ?thesis
      by (subst findValueByKey.simps) (simp add: nodes_entries first_match_Cons)
  qed
qed

lemma for_first_safe:
  assumes "\<And>k v. (k, v) \<in> set es \<Longrightarrow> typeof_object v \<Longrightarrow>
             safeFindValueByKey P v key = first_match P key (nodes v)"
  shows "for_first (\<lambda>(k, v). if typeof_object v then Inr (safeFindValueByKey P v key)
                            else Inr Undefined) es
         = Inr (first_match P key (concat (map (\<lambda>kv. nodes (snd kv)) es)))"
  using assms
proof (induction es)
  case Nil
  then show ?case by simp
next
  case (Cons e es)
  obtain k v where e: "e = (k, v)" by (cases e)
  have IH: "for_first (\<lambda>(k, v). if typeof_object v then Inr (safeFindValueByKey P v key)
                            else Inr Undefined) es
         = Inr (first_match P key (concat (map (\<lambda>kv. nodes (snd kv)) es)))"
  proof (rule Cons.IH)
    fix k' v' assume "(k', v') \<in> set es" "typeof_object v'"
    then show "safeFindValueByKey P v' key = first_match P key (nodes v')"
      using Cons.prems [of k' v'] by simp
  qed
  show ?case
  proof (cases "typeof_object v")
    case True
    then have "safeFindValueByKey P v key = first_match P key (nodes v)"
      using Cons.prems [of k v] e by simp
    then show ?thesis using True e IH
      by (simp add: first_match_append split: jsresult.splits)
  next
    case False
    then show ?thesis using e IH by simp
  qed
qed

lemma safeFindValueByKey_nodes:
  "typeof_object obj \<Longrightarrow> safeFindValueByKey P obj key = first_match P key (nodes obj)"
proof (induction P obj key rule: safeFindValueByKey.induct)
  case (1 P obj key)
  from has_in_typeof [OF "1.prems"] obtain b where b: "has_in P key obj = Inr b" by blast
  show ?case
  proof (cases b)
    case True
    with b "1.prems" show ?thesis
      by (subst safeFindValueByKey.simps) (simp add: nodes_entries first_match_Cons)
  next
    case False
    have "for_first (\<lambda>(k, v). if typeof_object v then Inr (safeFindValueByKey P v key)
                            else Inr Undefined) (entries obj)
         = Inr (first_match P key (concat (map (\<lambda>kv. nodes (snd kv)) (entries obj))))"
      by (rule for_first_safe) (use "1.IH" b False in auto)
    with b False "1.prems" show ?thesis
      by (subst safeFindValueByKey.simps) (simp add: nodes_entries first_match_Cons)
  qed
qed

lemma safeFindValueByKey_primitive:
  "\<not> typeof_object obj \<Longrightarrow> safeFindValueByKey P obj key = Undefined"
  by (cases obj) (simp_all add: safeFindValueByKey.simps)

text \<open>
  Claim C4, as the code has it. On an object or array \<open>obj\<close>, \<open>findValueByKey\<close> and
  \<open>safeFindValueByKey\<close> return what the first node, in depth-first pre-order, that has
  \<open>key\<close> holds under it; the nodes are \<open>obj\<close> and every object and every array below it
  (an array is descended into, element by element in index order). A node has \<open>key\<close> in
  the sense of \<^verbatim>\<open>key in node\<close>: as an own member (for an array an index or \<^verbatim>\<open>length\<close>),
  or as a property inherited from a built-in prototype; an own member gives its value,
  an inherited property the built-in function or object. The result is \<^verbatim>\<open>undefined\<close>
  exactly when no node has \<open>key\<close>. This holds for every table of inherited names.
\<close>

theorem findValueByKey_preorder:
  "typeof_object obj \<Longrightarrow>
     findValueByKey P obj key = Inr (first_match P key (nodes obj)) \<and>
     safeFindValueByKey P obj key = first_match P key (nodes obj) \<and>
     (has_in P key obj = Inr True \<longrightarrow> findValueByKey P obj key = Inr (read_prop P obj key)) \<and>
     (get_prop obj key = Some x \<longrightarrow> findValueByKey P obj key = Inr (Value x)) \<and>
     (get_prop obj key = None \<and> key \<in> set (inherited_names P obj) \<longrightarrow>
        findValueByKey P obj key = Inr Builtin) \<and>
     (findValueByKey P obj key = Inr Undefined \<longleftrightarrow>
        (\<forall>n\<in>set (nodes obj). has_in P key n \<noteq> Inr True))"
proof -
  assume t: "typeof_object obj"
  have 1: "findValueByKey P obj key = Inr (first_match P key (nodes obj))"
    by (rule findValueByKey_nodes [OF t])
  have 2: "safeFindValueByKey P obj key = first_match P key (nodes obj)"
    by (rule safeFindValueByKey_nodes [OF t])
  have 3: "has_in P key obj = Inr True \<longrightarrow> findValueByKey P obj key = Inr (read_prop P obj key)"
    by (subst findValueByKey.simps) simp
  have own: "has_in P key obj = Inr True" if "get_prop obj key = Some x"
    using t that
    by (cases obj) (auto simp: domIff dom_map_of_conv_image_fst [symmetric] split: if_splits)
  have inh: "has_in P key obj = Inr True" if "key \<in> set (inherited_names P obj)"
    using t that by (cases obj) auto
  have 4: "get_prop obj key = Some x \<longrightarrow> findValueByKey P obj key = Inr (Value x)"
    using 3 own by (auto simp: read_prop_def)
  have 5: "get_prop obj key = None \<and> key \<in> set (inherited_names P obj) \<longrightarrow>
        findValueByKey P obj key = Inr Builtin"
    using 3 inh by (auto simp: read_prop_def)
  have 6: "findValueByKey P obj key = Inr Undefined \<longleftrightarrow>
        (\<forall>n\<in>set (nodes obj). has_in P key n \<noteq> Inr True)"
    by (simp add: 1 first_match_Undefined)
  from 1 2 3 4 5 6 show ?thesis by blast
qed

theorem findValueByKey_preorder_witness:
  "typeof_object (JObj [(''x'', JArr [JObj [(''a'', JNum 1)]]), (''y'', JObj [(''a'', JNum 2)])]) \<and>
   findValueByKey ecmascript
       (JObj [(''x'', JArr [JObj [(''a'', JNum 1)]]), (''y'', JObj [(''a'', JNum 2)])]) ''a''
     = Inr (Value (JNum 1)) \<and>
   safeFindValueByKey ecmascript
       (JObj [(''x'', JArr [JObj [(''a'', JNum 1)]]), (''y'', JObj [(''a'', JNum 2)])]) ''a''
     = Value (JNum 1) \<and>
   get_prop (JObj [(''a'', JNum 1)]) ''constructor'' = None \<and>
   ''constructor'' \<in> set (inherited_names ecmascript (JObj [(''a'', JNum 1)])) \<and>
   findValueByKey ecmascript (JObj [(''a'', JNum 1)]) ''constructor'' = Inr Builtin"
proof -
  have h: "typeof_object (JObj [(''x'', JArr [JObj [(''a'', JNum 1)]]), (''y'', JObj [(''a'', JNum 2)])])"
    by simp
  have n: "first_match ecmascript ''a''
             (nodes (JObj [(''x'', JArr [JObj [(''a'', JNum 1)]]), (''y'', JObj [(''a'', JNum 2)])]))
           = Value (JNum 1)"
    by code_simp
  have c: "''constructor'' \<in> set (inherited_names ecmascript (JObj [(''a'', JNum 1)]))"
    by (simp add: ecmascript_def object_prototype_def)
  have g: "get_prop (JObj [(''a'', JNum 1)]) ''constructor'' = None"
    by simp
  have "typeof_object (JObj [(''a'', JNum 1)])"
    by simp
  from findValueByKey_preorder [OF this, of ecmascript "''constructor''"] g c
  have b: "findValueByKey ecmascript (JObj [(''a'', JNum 1)]) ''constructor'' = Inr Builtin"
    by blast
  from findValueByKey_preorder [OF h, of ecmascript "''a''"] n
  have a: "findValueByKey ecmascript
       (JObj [(''x'', JArr [JObj [(''a'', JNum 1)]]), (''y'', JObj [(''a'', JNum 2)])]) ''a''
     = Inr (Value (JNum 1)) \<and>
   safeFindValueByKey ecmascript
       (JObj [(''x'', JArr [JObj [(''a'', JNum 1)]]), (''y'', JObj [(''a'', JNum 2)])]) ''a''
     = Value (JNum 1)"
    by simp
  from h a g c b show ?thesis by blast
qed

text \<open>
  The claim as stated ("arrays are never descended into") fails: the key \<^verbatim>\<open>a\<close> is found
  inside an array.
\<close>

theorem findValueByKey_array_counterexample:
  "findValueByKey ecmascript (JObj [(''x'', JArr [JObj [(''a'', JNum 1)]])]) ''a''
     = Inr (Value (JNum 1)) \<and>
   safeFindValueByKey ecmascript (JObj [(''x'', JArr [JObj [(''a'', JNum 1)]])]) ''a''
     = Value (JNum 1)"
  by code_simp

lemma foldl_step_Undefined: "foldl (getByPath_step P) Undefined p = Undefined"
  by (induction p) (auto simp: getByPath_step_def)

text \<open>
  Claim C5, as the code has it. \<open>getByPath\<close> answers \<^verbatim>\<open>undefined\<close> for every path when
  \<open>obj\<close> is not an object or array, and \<open>obj\<close> itself for the empty path otherwise. Each
  further key is read from the value reached so far, which must be truthy: an own
  property (a member of an object, an index or \<^verbatim>\<open>length\<close> of an array or string) gives
  its value; a property inherited from a built-in prototype gives a built-in function
  or object, from which a further step is not determined here; any other key gives
  \<^verbatim>\<open>undefined\<close>. Once a step gives \<^verbatim>\<open>undefined\<close> the result stays \<^verbatim>\<open>undefined\<close>. This
  holds for every table of inherited names.
\<close>

theorem getByPath_walk:
  "(typeof_object obj \<longrightarrow> getByPath P obj [] = Value obj) \<and>
   (\<not> typeof_object obj \<longrightarrow> getByPath P obj path = Undefined) \<and>
   getByPath P obj (path @ [key]) =
     (case getByPath P obj path of
        Undefined \<Rightarrow> Undefined
      | Value a \<Rightarrow> if truthy a then read_prop P a key else Undefined
      | Builtin \<Rightarrow> Unknown
      | Unknown \<Rightarrow> Unknown) \<and>
   (getByPath P obj path = Undefined \<longrightarrow> getByPath P obj (path @ rest) = Undefined) \<and>
   (getByPath P obj path = Value (JObj kvs) \<longrightarrow>
      getByPath P obj (path @ [key]) =
        (case map_of kvs key of
           Some x \<Rightarrow> Value x
         | None \<Rightarrow> if key \<in> set (object_names P) then Builtin else Undefined)) \<and>
   (getByPath P obj path = Value (JArr xs) \<and> i < length xs \<longrightarrow>
      getByPath P obj (path @ [show_nat i]) = Value (xs ! i))"
proof -
  have 1: "typeof_object obj \<longrightarrow> getByPath P obj [] = Value obj"
    by (simp add: getByPath_def)
  have 2: "\<not> typeof_object obj \<longrightarrow> getByPath P obj path = Undefined"
    by (simp add: getByPath_def)
  have 3: "getByPath P obj (path @ [k]) =
     (case getByPath P obj path of
        Undefined \<Rightarrow> Undefined
      | Value a \<Rightarrow> if truthy a then read_prop P a k else Undefined
      | Builtin \<Rightarrow> Unknown
      | Unknown \<Rightarrow> Unknown)" for k
    by (simp add: getByPath_def getByPath_step_def)
  have 4: "getByPath P obj path = Undefined \<longrightarrow> getByPath P obj (path @ rest) = Undefined"
    by (simp add: getByPath_def foldl_step_Undefined)
  have 5: "getByPath P obj path = Value (JObj kvs) \<longrightarrow>
      getByPath P obj (path @ [key]) =
        (case map_of kvs key of
           Some x \<Rightarrow> Value x
         | None \<Rightarrow> if key \<in> set (object_names P) then Builtin else Undefined)"
    by (simp add: 3 read_prop_def)
  have 6: "getByPath P obj path = Value (JArr xs) \<and> i < length xs \<longrightarrow>
      getByPath P obj (path @ [show_nat i]) = Value (xs ! i)"
    by (simp add: 3 read_prop_def show_nat_not_length array_index_show_nat)
  from 1 2 3 [of key] 4 5 6 show ?thesis by blast
qed

theorem getByPath_walk_witness:
  "typeof_object (JObj [(''a'', JObj [(''b'', JObj [(''c'', JNum 5)])])]) \<and>
   getByPath ecmascript (JObj [(''a'', JObj [(''b'', JObj [(''c'', JNum 5)])])]) [''a'', ''b'']
     = Value (JObj [(''c'', JNum 5)]) \<and>
   getByPath ecmascript (JObj [(''a'', JObj [(''b'', JObj [(''c'', JNum 5)])])]) ([''a'', ''b''] @ [''c''])
     = Value (JNum 5) \<and>
   getByPath ecmascript (JObj [(''a'', JObj [(''b'', JObj [(''c'', JNum 5)])])]) []
     = Value (JObj [(''a'', JObj [(''b'', JObj [(''c'', JNum 5)])])]) \<and>
   getByPath ecmascript (JObj [(''a'', JNum 1)]) [''a'', ''z''] = Undefined \<and>
   getByPath ecmascript (JObj []) [''constructor''] = Builtin \<and>
   getByPath ecmascript (JObj []) [''constructor'', ''name''] = Unknown"
proof -
  have h: "getByPath ecmascript (JObj [(''a'', JObj [(''b'', JObj [(''c'', JNum 5)])])]) [''a'', ''b'']
           = Value (JObj [(''c'', JNum 5)])"
    by code_simp
  have e: "getByPath ecmascript (JObj [(''a'', JNum 1)]) [''a'', ''z''] = Undefined \<and>
   getByPath ecmascript (JObj []) [''constructor''] = Builtin \<and>
   getByPath ecmascript (JObj []) [''constructor'', ''name''] = Unknown"
    by code_simp
  have t: "typeof_object (JObj [(''a'', JObj [(''b'', JObj [(''c'', JNum 5)])])])"
    by simp
  from getByPath_walk [of "JObj [(''a'', JObj [(''b'', JObj [(''c'', JNum 5)])])]"
        ecmascript "[''a'', ''b'']" "''c''" "[]" "[(''c'', JNum 5)]" "[]" 0] h t
  have w: "getByPath ecmascript (JObj [(''a'', JObj [(''b'', JObj [(''c'', JNum 5)])])]) []
     = Value (JObj [(''a'', JObj [(''b'', JObj [(''c'', JNum 5)])])]) \<and>
    getByPath ecmascript (JObj [(''a'', JObj [(''b'', JObj [(''c'', JNum 5)])])]) ([''a'', ''b''] @ [''c''])
     = (case map_of [(''c'', JNum 5)] ''c'' of
           Some x \<Rightarrow> Value x
         | None \<Rightarrow> if ''c'' \<in> set (object_names ecmascript) then Builtin else Undefined)"
    by blast
  then have "getByPath ecmascript (JObj [(''a'', JObj [(''b'', JObj [(''c'', JNum 5)])])]) ([''a'', ''b''] @ [''c''])
     = Value (JNum 5)"
    by simp
  with t h e w show ?thesis by blast
qed

text \<open>
  The claim as stated fails twice: the empty path on a scalar does not return the scalar,
  and a step into an array by an index key succeeds.
\<close>

theorem getByPath_counterexample:
  "getByPath ecmascript (JNum 5) [] = Undefined \<and>
   getByPath ecmascript (JObj [(''a'', JArr [JNum 7])]) [''a'', ''0''] = Value (JNum 7)"
  by code_simp

lemma distinct_entries: "wf_json obj \<Longrightarrow> distinct (map fst (entries obj))"
  by (cases obj) (simp_all add: distinct_index_keys)

lemma distinct_map_fst_filter: "distinct (map fst es) \<Longrightarrow> distinct (map fst (filter P es))"
  by (induction es) auto

text \<open>
  Claim C9, as the code has it. On a plain object \<open>removeEmptyValues\<close> keeps exactly
  the members whose value is neither \<^verbatim>\<open>null\<close> nor the empty string (so \<open>0\<close> and
  \<^verbatim>\<open>false\<close> stay), at the top level only. An array passes the guard
  \<^verbatim>\<open>typeof obj !== 'object'\<close> and is filtered as the object of its index keys. Every
  other input gives the empty object.
\<close>

theorem removeEmptyValues_top_level:
  "(wf_json (JObj kvs) \<longrightarrow>
      removeEmptyValues (JObj kvs) = filter (\<lambda>(k, v). v \<noteq> JNull \<and> v \<noteq> JStr []) kvs) \<and>
   removeEmptyValues (JArr xs) =
      filter (\<lambda>(k, v). v \<noteq> JNull \<and> v \<noteq> JStr []) (zip (index_keys (length xs)) xs) \<and>
   (\<not> typeof_object obj \<longrightarrow> removeEmptyValues obj = [])"
proof -
  have 1: "removeEmptyValues (JObj kvs) = filter (\<lambda>(k, v). v \<noteq> JNull \<and> v \<noteq> JStr []) kvs"
    if "wf_json (JObj kvs)"
    using that
    by (simp add: removeEmptyValues_def from_entries_distinct distinct_map_fst_filter)
  have "distinct (map fst (zip (index_keys (length xs)) xs))"
    by (simp add: distinct_index_keys)
  then have 2: "removeEmptyValues (JArr xs) =
      filter (\<lambda>(k, v). v \<noteq> JNull \<and> v \<noteq> JStr []) (zip (index_keys (length xs)) xs)"
    by (simp add: removeEmptyValues_def from_entries_distinct distinct_map_fst_filter)
  have 3: "\<not> typeof_object obj \<longrightarrow> removeEmptyValues obj = []"
    by (simp add: removeEmptyValues_def)
  from 1 2 3 show ?thesis by blast
qed

theorem removeEmptyValues_top_level_witness:
  "wf_json (JObj [(''a'', JNull), (''b'', JNum 0), (''c'', JStr []), (''d'', JBool False), (''e'', JObj [(''f'', JNull)])]) \<and>
   removeEmptyValues (JObj [(''a'', JNull), (''b'', JNum 0), (''c'', JStr []), (''d'', JBool False), (''e'', JObj [(''f'', JNull)])])
     = [(''b'', JNum 0), (''d'', JBool False), (''e'', JObj [(''f'', JNull)])] \<and>
   \<not> typeof_object (JStr ''abc'') \<and> removeEmptyValues (JStr ''abc'') = []"
proof -
  have h: "wf_json (JObj [(''a'', JNull), (''b'', JNum 0), (''c'', JStr []), (''d'', JBool False), (''e'', JObj [(''f'', JNull)])])"
    by simp
  show ?thesis
    using h removeEmptyValues_top_level [of "[(''a'', JNull), (''b'', JNum 0), (''c'', JStr []), (''d'', JBool False), (''e'', JObj [(''f'', JNull)])]" "[]" "JStr ''abc''"]
    by simp
qed

text \<open>The claim as stated ("arrays yield an empty mapping") fails.\<close>

theorem removeEmptyValues_array_counterexample:
  "removeEmptyValues (JArr [JNum 1, JNull]) = [(''0'', JNum 1)]"
  by code_simp

section \<open>Flattening lists the leaves\<close>

text \<open>
  The leaves of a tree, each with the sequence of keys that leads to it, in the order in
  which \<open>flattenObject\<close> meets them. A leaf is a member that is not an object or array;
  objects and arrays are descended into, an array through its index keys.
\<close>

function leaves :: "json \<Rightarrow> (string list \<times> json) list" where
  "leaves obj =
     (if \<not> typeof_object obj then []
      else concat (map (\<lambda>(k, v). if typeof_object v
                                  then map (\<lambda>(p, l). (k # p, l)) (leaves v)
                                  else [([k], v)])
                       (entries obj)))"
  by pat_completeness auto
termination
  by (relation "measure size") (auto simp: size_entries)

declare leaves.simps [simp del]

text \<open>The key that the recursion builds for a sequence of keys, starting from \<open>pfx\<close>.\<close>

definition join_path :: "string \<Rightarrow> string list \<Rightarrow> string" where
  "join_path pfx p = foldl (\<lambda>pre key. if pre \<noteq> [] then pre @ ''.'' @ key else key) pfx p"

definition flat_entries :: "json \<Rightarrow> string \<Rightarrow> object" where
  "flat_entries obj pfx = map (\<lambda>(p, l). (join_path pfx p, l)) (leaves obj)"


lemma join_path_Cons:
  "join_path pfx (k # p) = join_path (if pfx \<noteq> [] then pfx @ ''.'' @ k else k) p"
  by (simp add: join_path_def)

lemma flat_entries_unfold:
  "typeof_object obj \<Longrightarrow>
   flat_entries obj pfx =
     concat (map (\<lambda>(k, v). if typeof_object v
                            then flat_entries v (if pfx \<noteq> [] then pfx @ ''.'' @ k else k)
                            else [(if pfx \<noteq> [] then pfx @ ''.'' @ k else k, v)])
                 (entries obj))"
  unfolding flat_entries_def
  by (subst leaves.simps)
     (auto simp: map_concat comp_def join_path_Cons join_path_def split_def
           intro!: arg_cong [where f = concat] map_cong)

lemma set_prop_member:
  "k \<noteq> ''__proto__'' \<Longrightarrow> set_prop k v (m, p) = (AList.update k v m, p)"
  by (simp add: set_prop_def)

lemma object_assign_members:
  "''__proto__'' \<notin> fst ` set src \<Longrightarrow> object_assign (m, p) src = (create_properties m src, p)"
proof (induction src arbitrary: m)
  case Nil
  then show ?case by (simp add: object_assign_def)
next
  case (Cons e src)
  obtain k v where e: "e = (k, v)" by (cases e)
  from Cons.prems e have k: "k \<noteq> ''__proto__''" and r: "''__proto__'' \<notin> fst ` set src"
    by auto
  have "object_assign (m, p) (e # src) = object_assign (set_prop k v (m, p)) src"
    by (simp add: object_assign_def e)
  with Cons.IH [OF r] k e show ?case by (simp add: set_prop_member)
qed

lemma flatten_loop:
  assumes "\<And>k v. (k, v) \<in> set es \<Longrightarrow> typeof_object v \<Longrightarrow>
             flattenObject v (if pfx \<noteq> [] then pfx @ ''.'' @ k else k)
               = (from_entries (flat_entries v (if pfx \<noteq> [] then pfx @ ''.'' @ k else k)),
                  ObjectPrototype)"
    and "''__proto__'' \<notin> fst ` set
           (concat (map (\<lambda>(k, v). if typeof_object v
                            then flat_entries v (if pfx \<noteq> [] then pfx @ ''.'' @ k else k)
                            else [(if pfx \<noteq> [] then pfx @ ''.'' @ k else k, v)]) es))"
  shows "foldl (\<lambda>acc (key, value).
                if typeof_object value
                then object_assign acc
                       (fst (flattenObject value (if pfx \<noteq> [] then pfx @ ''.'' @ key else key)))
                else set_prop (if pfx \<noteq> [] then pfx @ ''.'' @ key else key) value acc)
           (m, ObjectPrototype) es
         = (create_properties m
             (concat (map (\<lambda>(k, v). if typeof_object v
                            then flat_entries v (if pfx \<noteq> [] then pfx @ ''.'' @ k else k)
                            else [(if pfx \<noteq> [] then pfx @ ''.'' @ k else k, v)]) es)),
            ObjectPrototype)"
  using assms
proof (induction es arbitrary: m)
  case Nil
  then show ?case by simp
next
  case (Cons e es)
  obtain k v where e: "e = (k, v)" by (cases e)
  have hd: "typeof_object v \<Longrightarrow> flattenObject v (if pfx \<noteq> [] then pfx @ ''.'' @ k else k)
               = (from_entries (flat_entries v (if pfx \<noteq> [] then pfx @ ''.'' @ k else k)),
                  ObjectPrototype)"
    using Cons.prems(1) [of k v] e by simp
  have tl: "\<And>k v. (k, v) \<in> set es \<Longrightarrow> typeof_object v \<Longrightarrow>
             flattenObject v (if pfx \<noteq> [] then pfx @ ''.'' @ k else k)
               = (from_entries (flat_entries v (if pfx \<noteq> [] then pfx @ ''.'' @ k else k)),
                  ObjectPrototype)"
    using Cons.prems(1) by simp
  have ptl: "''__proto__'' \<notin> fst ` set
           (concat (map (\<lambda>(k, v). if typeof_object v
                            then flat_entries v (if pfx \<noteq> [] then pfx @ ''.'' @ k else k)
                            else [(if pfx \<noteq> [] then pfx @ ''.'' @ k else k, v)]) es))"
    using Cons.prems(2) by (simp add: image_Un)
  note IH = Cons.IH [OF tl ptl]
  show ?case
  proof (cases "typeof_object v")
    case True
    have "''__proto__'' \<notin> fst ` set (flat_entries v (if pfx \<noteq> [] then pfx @ ''.'' @ k else k))"
      using Cons.prems(2) e True by (simp add: image_Un)
    then have "''__proto__'' \<notin> fst ` set
                 (from_entries (flat_entries v (if pfx \<noteq> [] then pfx @ ''.'' @ k else k)))"
      by (simp add: from_entries_def keys_create_properties)
    then have "object_assign (m, ObjectPrototype)
                 (from_entries (flat_entries v (if pfx \<noteq> [] then pfx @ ''.'' @ k else k)))
             = (create_properties m (flat_entries v (if pfx \<noteq> [] then pfx @ ''.'' @ k else k)),
                ObjectPrototype)"
      by (simp add: object_assign_members create_properties_from_entries)
    with True hd e show ?thesis
      by (simp add: IH create_properties_append split del: if_split)
  next
    case False
    have "(if pfx \<noteq> [] then pfx @ ''.'' @ k else k) \<noteq> ''__proto__''"
      using Cons.prems(2) e False by (cases "pfx = []") auto
    then have "set_prop (if pfx \<noteq> [] then pfx @ ''.'' @ k else k) v (m, ObjectPrototype)
               = (AList.update (if pfx \<noteq> [] then pfx @ ''.'' @ k else k) v m, ObjectPrototype)"
      by (rule set_prop_member)
    with False e show ?thesis
      by (simp add: IH split del: if_split)
  qed
qed

lemma flattenObject_flat_entries:
  "''__proto__'' \<notin> fst ` set (flat_entries obj pfx) \<Longrightarrow>
   flattenObject obj pfx = (from_entries (flat_entries obj pfx), ObjectPrototype)"
proof (induction obj arbitrary: pfx rule: measure_induct_rule [where f = size])
  case (less obj)
  show ?case
  proof (cases "typeof_object obj")
    case False
    then show ?thesis
      by (simp add: flattenObject.simps [of obj] leaves.simps [of obj] flat_entries_def
               from_entries_def)
  next
    case True
    have p: "''__proto__'' \<notin> fst ` set
           (concat (map (\<lambda>(k, v). if typeof_object v
                            then flat_entries v (if pfx \<noteq> [] then pfx @ ''.'' @ k else k)
                            else [(if pfx \<noteq> [] then pfx @ ''.'' @ k else k, v)]) (entries obj)))"
      using less.prems flat_entries_unfold [OF True, of pfx] by simp
    have sub: "''__proto__'' \<notin> fst ` set (flat_entries v (if pfx \<noteq> [] then pfx @ ''.'' @ k else k))"
      if "(k, v) \<in> set (entries obj)" "typeof_object v" for k v
    proof
      assume "''__proto__'' \<in> fst ` set (flat_entries v (if pfx \<noteq> [] then pfx @ ''.'' @ k else k))"
      then obtain x where "x \<in> set (flat_entries v (if pfx \<noteq> [] then pfx @ ''.'' @ k else k))"
        and "fst x = ''__proto__''" by force
      with that have "x \<in> set (concat (map (\<lambda>(k, v). if typeof_object v
                            then flat_entries v (if pfx \<noteq> [] then pfx @ ''.'' @ k else k)
                            else [(if pfx \<noteq> [] then pfx @ ''.'' @ k else k, v)]) (entries obj)))"
        by (cases "pfx = []") (auto intro!: bexI [of _ "(k, v)"])
      with p \<open>fst x = ''__proto__''\<close> show False by force
    qed
    have loop: "foldl (\<lambda>acc (key, value).
                if typeof_object value
                then object_assign acc
                       (fst (flattenObject value (if pfx \<noteq> [] then pfx @ ''.'' @ key else key)))
                else set_prop (if pfx \<noteq> [] then pfx @ ''.'' @ key else key) value acc)
              ([], ObjectPrototype) (entries obj)
         = (create_properties []
             (concat (map (\<lambda>(k, v). if typeof_object v
                            then flat_entries v (if pfx \<noteq> [] then pfx @ ''.'' @ k else k)
                            else [(if pfx \<noteq> [] then pfx @ ''.'' @ k else k, v)]) (entries obj))),
            ObjectPrototype)"
    proof (rule flatten_loop [OF _ p])
      fix k v assume kv: "(k, v) \<in> set (entries obj)" and t: "typeof_object v"
      show "flattenObject v (if pfx \<noteq> [] then pfx @ ''.'' @ k else k)
            = (from_entries (flat_entries v (if pfx \<noteq> [] then pfx @ ''.'' @ k else k)),
               ObjectPrototype)"
        by (rule less.IH [OF size_entries [OF kv t] sub [OF kv t]])
    qed
    show ?thesis
      using True
      by (subst flattenObject.simps) (simp add: loop flat_entries_unfold from_entries_def Let_def)
  qed
qed

lemma leaves_not_object: "(p, l) \<in> set (leaves obj) \<Longrightarrow> \<not> typeof_object l"
proof (induction obj arbitrary: p rule: measure_induct_rule [where f = size])
  case (less obj)
  show ?case
  proof (cases "typeof_object obj")
    case False
    with less.prems show ?thesis by (simp add: leaves.simps)
  next
    case True
    with less.prems obtain k v where kv: "(k, v) \<in> set (entries obj)"
      and m: "(p, l) \<in> set (if typeof_object v then map (\<lambda>(p, l). (k # p, l)) (leaves v) else [([k], v)])"
      by (subst (asm) leaves.simps) auto
    show ?thesis
    proof (cases "typeof_object v")
      case True
      with m obtain q where "(q, l) \<in> set (leaves v)" by auto
      with less.IH [OF size_entries [OF kv True]] show ?thesis by blast
    next
      case False
      with m show ?thesis by simp
    qed
  qed
qed

text \<open>The keys joined by dots.\<close>

fun dot_join :: "string list \<Rightarrow> string" where
  "dot_join [] = []"
| "dot_join [k] = k"
| "dot_join (k # ks) = k @ ''.'' @ dot_join ks"

lemma join_path_nonempty: "pfx \<noteq> [] \<Longrightarrow> p \<noteq> [] \<Longrightarrow> join_path pfx p = pfx @ ''.'' @ dot_join p"
proof (induction p arbitrary: pfx)
  case Nil
  then show ?case by simp
next
  case (Cons k p)
  show ?case
  proof (cases p)
    case Nil
    with Cons.prems show ?thesis by (simp add: join_path_def)
  next
    case (Cons k' p')
    have "join_path (pfx @ ''.'' @ k) p = (pfx @ ''.'' @ k) @ ''.'' @ dot_join p"
      by (rule Cons.IH) (simp_all add: Cons)
    with Cons.prems Cons show ?thesis by (simp add: join_path_Cons)
  qed
qed

lemma join_path_dot_join: "p \<noteq> [] \<Longrightarrow> hd p \<noteq> [] \<Longrightarrow> join_path [] p = dot_join p"
proof (cases p)
  case Nil
  assume "p \<noteq> []"
  with Nil show ?thesis by simp
next
  case (Cons k ks)
  assume "hd p \<noteq> []"
  with Cons have k: "k \<noteq> []" by simp
  show ?thesis
  proof (cases ks)
    case Nil
    with Cons show ?thesis by (simp add: join_path_def)
  next
    case (Cons k' ks')
    with k \<open>p = k # ks\<close> join_path_nonempty [of k ks] show ?thesis
      by (simp add: join_path_Cons)
  qed
qed

lemma join_path_proto:
  "pfx \<noteq> [] \<Longrightarrow> p \<noteq> [] \<Longrightarrow> join_path pfx p \<noteq> ''__proto__''"
proof
  assume "pfx \<noteq> []" "p \<noteq> []" and eq: "join_path pfx p = ''__proto__''"
  then have "pfx @ ''.'' @ dot_join p = ''__proto__''"
    by (simp add: join_path_nonempty)
  then have "CHR ''.'' \<in> set ''__proto__''"
    by (metis append_Cons in_set_conv_decomp)
  then show False by simp
qed

lemma leaves_nonempty: "(p, l) \<in> set (leaves obj) \<Longrightarrow> p \<noteq> []"
  by (subst (asm) leaves.simps) (auto split: if_splits)

lemma flat_entries_prefixed:
  "pfx \<noteq> [] \<Longrightarrow> ''__proto__'' \<notin> fst ` set (flat_entries obj pfx)"
  by (auto simp: flat_entries_def dest!: leaves_nonempty dest: join_path_proto [of pfx])

text \<open>
  Claim C3, as the code has it. When no leaf of \<open>obj\<close> gets the joined key \<^verbatim>\<open>__proto__\<close>
  (which is so whenever \<open>pfx\<close> is not empty), \<open>flattenObject obj pfx\<close> is an object with
  the prototype of every object literal, on which the leaves of \<open>obj\<close> are created in
  traversal order, each under the key joined from \<open>pfx\<close> and the keys that lead to it; so
  a lookup gives the last leaf with that key, and when the joined keys are distinct the
  members are exactly the list of the leaves. No leaf is an object or an array: arrays
  are descended into. The joined key of a sequence that starts with a non-empty key is
  the dot-joined sequence. An input that is not an object or array gives the empty
  object.
\<close>

theorem flattenObject_leaves:
  "''__proto__'' \<notin> fst ` set (flat_entries obj pfx) \<Longrightarrow>
   flattenObject obj pfx = (from_entries (flat_entries obj pfx), ObjectPrototype) \<and>
   map_of (fst (flattenObject obj pfx)) = map_of (rev (flat_entries obj pfx)) \<and>
   (distinct (map fst (flat_entries obj pfx)) \<longrightarrow>
      flattenObject obj pfx = (flat_entries obj pfx, ObjectPrototype)) \<and>
   (\<forall>(p, l)\<in>set (leaves obj). \<not> typeof_object l) \<and>
   (q \<noteq> [] \<and> hd q \<noteq> [] \<longrightarrow> join_path [] q = dot_join q) \<and>
   (\<not> typeof_object obj \<longrightarrow> flattenObject obj pfx = ([], ObjectPrototype)) \<and>
   (pfx' \<noteq> [] \<longrightarrow>
      flattenObject obj pfx' = (from_entries (flat_entries obj pfx'), ObjectPrototype))"
proof -
  assume h: "''__proto__'' \<notin> fst ` set (flat_entries obj pfx)"
  have 1: "flattenObject obj pfx = (from_entries (flat_entries obj pfx), ObjectPrototype)"
    by (rule flattenObject_flat_entries [OF h])
  have 2: "map_of (fst (flattenObject obj pfx)) = map_of (rev (flat_entries obj pfx))"
    by (simp add: 1 from_entries_def map_of_create_properties)
  have 3: "distinct (map fst (flat_entries obj pfx)) \<longrightarrow>
      flattenObject obj pfx = (flat_entries obj pfx, ObjectPrototype)"
    by (simp add: 1 from_entries_distinct)
  have 4: "\<forall>(p, l)\<in>set (leaves obj). \<not> typeof_object l"
    using leaves_not_object by blast
  have 5: "q \<noteq> [] \<and> hd q \<noteq> [] \<longrightarrow> join_path [] q = dot_join q"
    by (simp add: join_path_dot_join)
  have 6: "\<not> typeof_object obj \<longrightarrow> flattenObject obj pfx = ([], ObjectPrototype)"
    by (simp add: flattenObject.simps [of obj])
  have 7: "pfx' \<noteq> [] \<longrightarrow>
      flattenObject obj pfx' = (from_entries (flat_entries obj pfx'), ObjectPrototype)"
    using flattenObject_flat_entries [OF flat_entries_prefixed] by blast
  from 1 2 3 4 5 6 7 show ?thesis by blast
qed

theorem flattenObject_leaves_witness:
  "''__proto__'' \<notin> fst ` set (flat_entries (JObj [(''a'', JObj [(''b'', JNum 1), (''c'', JObj [(''d'', JNum 2)])])]) []) \<and>
   distinct (map fst (flat_entries (JObj [(''a'', JObj [(''b'', JNum 1), (''c'', JObj [(''d'', JNum 2)])])]) [])) \<and>
   flattenObject (JObj [(''a'', JObj [(''b'', JNum 1), (''c'', JObj [(''d'', JNum 2)])])]) []
     = ([(''a.b'', JNum 1), (''a.c.d'', JNum 2)], ObjectPrototype) \<and>
   join_path [] [''a'', ''c'', ''d''] = ''a.c.d''"
proof -
  have fe: "flat_entries (JObj [(''a'', JObj [(''b'', JNum 1), (''c'', JObj [(''d'', JNum 2)])])]) []
            = [(''a.b'', JNum 1), (''a.c.d'', JNum 2)]"
    by code_simp
  have h: "''__proto__'' \<notin> fst ` set (flat_entries (JObj [(''a'', JObj [(''b'', JNum 1), (''c'', JObj [(''d'', JNum 2)])])]) [])"
    by (simp add: fe)
  have d: "distinct (map fst (flat_entries (JObj [(''a'', JObj [(''b'', JNum 1), (''c'', JObj [(''d'', JNum 2)])])]) []))"
    by (simp add: fe)
  note t = flattenObject_leaves [OF h, of "[''a'', ''c'', ''d'']"]
  from t d have "flattenObject (JObj [(''a'', JObj [(''b'', JNum 1), (''c'', JObj [(''d'', JNum 2)])])]) []
     = (flat_entries (JObj [(''a'', JObj [(''b'', JNum 1), (''c'', JObj [(''d'', JNum 2)])])]) [],
        ObjectPrototype)"
    by blast
  moreover from t have "join_path [] [''a'', ''c'', ''d''] = ''a.c.d''"
    by simp
  ultimately show ?thesis using h d fe by simp
qed

text \<open>
  The claim as stated ("every array value is a leaf, kept intact"; "non-mapping input
  yields an empty result") fails on an array member and on an array input. A leaf whose
  joined key is \<^verbatim>\<open>__proto__\<close> gives no entry: a number there is dropped, \<^verbatim>\<open>null\<close> there
  leaves the result without a prototype.
\<close>

theorem flattenObject_array_counterexample:
  "flattenObject (JObj [(''a'', JArr [JNum 1, JNum 2])]) []
     = ([(''a.0'', JNum 1), (''a.1'', JNum 2)], ObjectPrototype) \<and>
   flattenObject (JArr [JNum 1]) [] = ([(''0'', JNum 1)], ObjectPrototype) \<and>
   flattenObject (JObj [(''__proto__'', JNum 1), (''a'', JNum 2)]) []
     = ([(''a'', JNum 2)], ObjectPrototype) \<and>
   flattenObject (JObj [(''__proto__'', JNull)]) [] = ([], NullPrototype)"
  by code_simp

section \<open>Laws of the structural comparison\<close>

lemma get_prop_index:
  "get_prop (JArr xs) (show_nat i) = (if i < length xs then Some (xs ! i) else None)"
  by (simp add: show_nat_not_length array_index_show_nat)

lemma object_keys_get_prop:
  "typeof_object a \<Longrightarrow> k \<in> set (object_keys a) \<Longrightarrow> \<exists>x. get_prop a k = Some x"
proof (cases a)
  case (JArr xs)
  assume "k \<in> set (object_keys a)"
  with JArr obtain i where "i < length xs" "k = show_nat i"
    by (auto simp: object_keys_def index_keys_def)
  with JArr get_prop_index [of xs i] show ?thesis by simp
next
  case (JObj kvs)
  assume "k \<in> set (object_keys a)"
  with JObj show ?thesis
    by (auto simp: object_keys_def weak_map_of_SomeI map_of_eq_None_iff)
qed simp_all

lemma wf_json_get_prop: "wf_json a \<Longrightarrow> get_prop a k = Some x \<Longrightarrow> wf_json x"
proof (cases a)
  case (JArr xs)
  assume "wf_json a" "get_prop a k = Some x"
  with JArr show ?thesis
    by (auto simp: array_index_Some list_all_iff split: if_splits)
next
  case (JObj kvs)
  assume "wf_json a" "get_prop a k = Some x"
  with JObj show ?thesis
    by (auto simp: list_all_iff dest!: map_of_SomeD)
next
  case (JStr s)
  assume "get_prop a k = Some x"
  with JStr show ?thesis by (auto split: if_splits)
qed simp_all

lemma distinct_object_keys: "wf_json a \<Longrightarrow> distinct (object_keys a)"
  by (simp add: object_keys_def distinct_entries)

lemma deepEqualHelper_arrays:
  "deepEqualHelper (JArr xs) (JArr ys) \<longleftrightarrow>
     length xs = length ys \<and> (\<forall>i<length xs. deepEqualHelper (xs ! i) (ys ! i))"
  by (subst deepEqualHelper.simps) (auto simp: strict_equal_def list_all_length)

definition members_match :: "json \<Rightarrow> json \<Rightarrow> string \<Rightarrow> bool" where
  "members_match a b key =
     (case (get_prop a key, get_prop b key) of
        (Some x, Some y) \<Rightarrow> deepEqualHelper x y
      | (None, None) \<Rightarrow> True
      | _ \<Rightarrow> False)"

lemma deepEqualHelper_keys:
  "typeof_object a \<Longrightarrow> typeof_object b \<Longrightarrow> \<not> (is_array a \<and> is_array b) \<Longrightarrow>
   deepEqualHelper a b \<longleftrightarrow>
     length (object_keys a) = length (object_keys b) \<and>
     (\<forall>key\<in>set (object_keys a). key \<in> set (object_keys b) \<and> members_match a b key)"
  by (subst deepEqualHelper.simps)
     (auto simp: strict_equal_def list_all_iff Let_def members_match_def)

lemma deepEqualHelper_primitive:
  "\<not> typeof_object a \<or> \<not> typeof_object b \<Longrightarrow> deepEqualHelper a b \<longleftrightarrow> \<not> typeof_object a \<and> a = b"
  by (subst deepEqualHelper.simps) (cases a; cases b; auto simp: strict_equal_def)

lemma deepEqualHelper_refl: "deepEqualHelper a a"
proof (induction a rule: measure_induct_rule [where f = size])
  case (less a)
  show ?case
  proof (cases a)
    case (JArr xs)
    have "deepEqualHelper (xs ! i) (xs ! i)" if "i < length xs" for i
    proof (rule less.IH)
      from that have "xs ! i \<in> set (elements a)" using JArr by simp
      then show "size (xs ! i) < size a" using JArr size_elements [of a] by simp
    qed
    with JArr show ?thesis by (simp add: deepEqualHelper_arrays)
  next
    case (JObj kvs)
    have "members_match a a key" if "key \<in> set (object_keys a)" for key
    proof -
      from object_keys_get_prop [OF _ that] JObj obtain x where x: "get_prop a key = Some x"
        by auto
      with JObj have "size x < size a" using size_get_prop [of a key x] by simp
      then have "deepEqualHelper x x" by (rule less.IH)
      with x show ?thesis by (simp add: members_match_def)
    qed
    with JObj show ?thesis by (simp add: deepEqualHelper_keys)
  qed (simp_all add: deepEqualHelper_primitive)
qed

lemma same_keys:
  assumes "distinct xs" "distinct ys" "length xs = length ys" "set xs \<subseteq> set ys"
  shows "set xs = set ys"
proof -
  have "card (set xs) = card (set ys)" using assms by (simp add: distinct_card)
  with assms(4) show ?thesis by (simp add: card_subset_eq)
qed

lemma deepEqualHelper_sym_imp:
  "wf_json a \<Longrightarrow> wf_json b \<Longrightarrow> deepEqualHelper a b \<Longrightarrow> deepEqualHelper b a"
proof (induction a arbitrary: b rule: measure_induct_rule [where f = size])
  case (less a)
  show ?case
  proof (cases "typeof_object a \<and> typeof_object b")
    case False
    with less.prems(3) have "\<not> typeof_object a \<and> a = b"
      using deepEqualHelper_primitive [of a b] by blast
    then show ?thesis using deepEqualHelper_refl [of b] by simp
  next
    case True
    show ?thesis
    proof (cases "is_array a \<and> is_array b")
      case True
      then obtain xs ys where ab: "a = JArr xs" "b = JArr ys"
        by (cases a; cases b) auto
      with less.prems(3) have len: "length xs = length ys"
        and el: "\<And>i. i < length xs \<Longrightarrow> deepEqualHelper (xs ! i) (ys ! i)"
        by (simp_all add: deepEqualHelper_arrays)
      have "deepEqualHelper (ys ! i) (xs ! i)" if "i < length ys" for i
      proof (rule less.IH)
        from that len have "xs ! i \<in> set (elements a)" using ab by simp
        then show "size (xs ! i) < size a" using ab size_elements [of a] by simp
        show "wf_json (xs ! i)" using less.prems(1) ab that len by (simp add: list_all_length)
        show "wf_json (ys ! i)" using less.prems(2) ab that by (simp add: list_all_length)
        show "deepEqualHelper (xs ! i) (ys ! i)" using el that len by simp
      qed
      with ab len show ?thesis by (simp add: deepEqualHelper_arrays)
    next
      case False
      with True less.prems(3)
      have len: "length (object_keys a) = length (object_keys b)"
        and mem: "\<And>key. key \<in> set (object_keys a) \<Longrightarrow>
                   key \<in> set (object_keys b) \<and> members_match a b key"
        by (simp_all add: deepEqualHelper_keys)
      have keys: "set (object_keys a) = set (object_keys b)"
        by (rule same_keys)
           (use len mem less.prems in \<open>auto simp: distinct_object_keys\<close>)
      have "members_match b a key" if "key \<in> set (object_keys b)" for key
      proof -
        from that keys have ka: "key \<in> set (object_keys a)" by simp
        from object_keys_get_prop [OF _ ka] True obtain x where x: "get_prop a key = Some x"
          by auto
        from object_keys_get_prop [OF _ that] True obtain y where y: "get_prop b key = Some y"
          by auto
        from mem [OF ka] x y have xy: "deepEqualHelper x y" by (simp add: members_match_def)
        have "deepEqualHelper y x"
        proof (rule less.IH)
          show "size x < size a" using size_get_prop [OF _ x] True by simp
          show "wf_json x" by (rule wf_json_get_prop [OF less.prems(1) x])
          show "wf_json y" by (rule wf_json_get_prop [OF less.prems(2) y])
          show "deepEqualHelper x y" by (rule xy)
        qed
        with x y show ?thesis by (simp add: members_match_def)
      qed
      with True False len keys show ?thesis
        using deepEqualHelper_keys [of b a] by auto
    qed
  qed
qed

lemma deepEqualHelper_sym:
  "wf_json a \<Longrightarrow> wf_json b \<Longrightarrow> deepEqualHelper a b = deepEqualHelper b a"
  using deepEqualHelper_sym_imp [of a b] deepEqualHelper_sym_imp [of b a] by blast

lemma deepEqualHelper_objects:
  assumes "wf_json (JObj as)" "wf_json (JObj bs)"
  shows "deepEqualHelper (JObj as) (JObj bs) \<longleftrightarrow>
           set (map fst as) = set (map fst bs) \<and>
           (\<forall>k\<in>set (map fst as). \<exists>x y. map_of as k = Some x \<and> map_of bs k = Some y \<and> deepEqualHelper x y)"
proof
  assume h: "deepEqualHelper (JObj as) (JObj bs)"
  then have len: "length (object_keys (JObj as)) = length (object_keys (JObj bs))"
    and mem: "\<And>key. key \<in> set (object_keys (JObj as)) \<Longrightarrow>
                   key \<in> set (object_keys (JObj bs)) \<and> members_match (JObj as) (JObj bs) key"
    by (simp_all add: deepEqualHelper_keys)
  have keys: "set (object_keys (JObj as)) = set (object_keys (JObj bs))"
    by (rule same_keys) (use len mem assms in \<open>auto simp: distinct_object_keys\<close>)
  have "\<exists>x y. map_of as k = Some x \<and> map_of bs k = Some y \<and> deepEqualHelper x y"
    if "k \<in> set (map fst as)" for k
  proof -
    from that have ka: "k \<in> set (object_keys (JObj as))" by (simp add: object_keys_def)
    with keys have kb: "k \<in> set (object_keys (JObj bs))" by simp
    from object_keys_get_prop [OF _ ka] obtain x where x: "map_of as k = Some x" by auto
    from object_keys_get_prop [OF _ kb] obtain y where y: "map_of bs k = Some y" by auto
    from mem [OF ka] x y show ?thesis by (simp add: members_match_def)
  qed
  with keys show "set (map fst as) = set (map fst bs) \<and>
           (\<forall>k\<in>set (map fst as). \<exists>x y. map_of as k = Some x \<and> map_of bs k = Some y \<and> deepEqualHelper x y)"
    by (simp add: object_keys_def)
next
  assume h: "set (map fst as) = set (map fst bs) \<and>
           (\<forall>k\<in>set (map fst as). \<exists>x y. map_of as k = Some x \<and> map_of bs k = Some y \<and> deepEqualHelper x y)"
  have "length (map fst as) = length (map fst bs)"
    using assms h by (metis distinct_card wf_json.simps(2))
  moreover have "members_match (JObj as) (JObj bs) k" if "k \<in> set (map fst as)" for k
  proof -
    from that h obtain x y where "map_of as k = Some x" "map_of bs k = Some y" "deepEqualHelper x y"
      by blast
    then show ?thesis by (simp add: members_match_def)
  qed
  ultimately show "deepEqualHelper (JObj as) (JObj bs)"
    using h by (simp add: deepEqualHelper_keys object_keys_def)
qed

section \<open>The codec, the comparator and deepMerge\<close>

lemma map_norm_members:
  "list_all (\<lambda>kv. wf_json (snd kv)) kvs \<Longrightarrow> map (\<lambda>kv. (fst kv, norm (snd kv))) kvs = kvs"
  by (rule map_idI) (simp add: list_all_iff norm_wf_json)

lemma butlast_tl_braces: "butlast (tl (CHR ''{'' # body @ ''}'')) = body"
  by (simp add: butlast_append)

lemma deepMerge_nonempty:
  assumes "wf_json (JObj t)" "wf_json (JObj s)" "t \<noteq> []" "s \<noteq> []"
  shows "deepMerge (JObj t) (JObj s) = JObj (create_properties t s)"
proof -
  let ?text = "''{'' @ butlast (tl (JSON_stringify (JObj t))) @ '','' @
               butlast (tl (JSON_stringify (JObj s))) @ ''}''"
  have "?text = CHR ''{'' # (join_with '','' (map member_text t) @ '','' @
                 join_with '','' (map member_text s)) @ ''}''"
    by (simp only: stringify_obj butlast_tl_braces) simp
  also have "\<dots> = JSON_stringify (JObj (t @ s))"
    using assms(3,4) join_with_append [of "map member_text t" "map member_text s" "'',''"]
    by (simp only: stringify_obj map_append) simp
  finally have "JSON_parse ?text = Inr (norm (JObj (t @ s)))"
    by (simp only: JSON_parse_stringify)
  moreover have "norm (JObj (t @ s)) = JObj (create_properties t s)"
  proof -
    have "map (\<lambda>kv. (fst kv, norm (snd kv))) (t @ s) = t @ s"
      by (rule map_norm_members) (use assms(1,2) in simp)
    moreover have "from_entries (t @ s) = create_properties t s"
      using assms(1) from_entries_distinct [of t]
      by (simp add: from_entries_def create_properties_append)
    ultimately show ?thesis by simp
  qed
  ultimately show ?thesis by (simp add: deepMerge_def Let_def)
qed

lemma parse_members_comma: "parse_members n acc (CHR '','' # cs) = None"
  by (cases n) (simp_all add: skip_ws_Cons is_ws_def)

lemma JSON_parse_brace_comma: "JSON_parse (CHR ''{'' # CHR '','' # cs) = Inl SyntaxError"
  by (simp add: JSON_parse_def skip_ws_Cons is_ws_def parse_members_comma)

text \<open>
  Claim C1 at the failing input. For the target \<^verbatim>\<open>{}\<close> the spliced text starts with
  \<^verbatim>\<open>{,\<close>; \<open>JSON_parse\<close> refuses it and the \<^verbatim>\<open>catch\<close> returns the target, whatever the
  source: for the source \<^verbatim>\<open>{a: 1}\<close> the key \<^verbatim>\<open>a\<close> is missing from the result. (For two
  non-empty objects the result is the shallow combine, \<open>deepMerge_nonempty\<close>.)
\<close>

theorem deepMerge_empty_target:
  "deepMerge (JObj []) source = JObj [] \<and>
   deepMerge (JObj []) (JObj [(''a'', JNum 1)]) = JObj []"
proof -
  have "deepMerge (JObj []) s = JObj []" for s
    by (simp add: deepMerge_def Let_def JSON_parse_brace_comma)
  then show ?thesis by simp
qed

text \<open>
  Claim C7. On the target \<^verbatim>\<open>{x:{p:1,q:2}}\<close> and the source \<^verbatim>\<open>{x:{q:3}}\<close>, \<open>deepMerge\<close>
  gives \<^verbatim>\<open>{x:{q:3}}\<close> and \<open>deepUpdate\<close> gives \<^verbatim>\<open>{x:{p:1,q:3}}\<close>: the two differ.
\<close>

theorem combine_divergence:
  "deepMerge (JObj [(''x'', JObj [(''p'', JNum 1), (''q'', JNum 2)])]) (JObj [(''x'', JObj [(''q'', JNum 3)])])
     = JObj [(''x'', JObj [(''q'', JNum 3)])] \<and>
   deepUpdate (JObj [(''x'', JObj [(''p'', JNum 1), (''q'', JNum 2)])]) (JObj [(''x'', JObj [(''q'', JNum 3)])])
     = Inr (JObj [(''x'', JObj [(''p'', JNum 1), (''q'', JNum 3)])]) \<and>
   Inr (deepMerge (JObj [(''x'', JObj [(''p'', JNum 1), (''q'', JNum 2)])]) (JObj [(''x'', JObj [(''q'', JNum 3)])]))
     \<noteq> deepUpdate (JObj [(''x'', JObj [(''p'', JNum 1), (''q'', JNum 2)])]) (JObj [(''x'', JObj [(''q'', JNum 3)])])"
proof -
  have 1: "deepMerge (JObj [(''x'', JObj [(''p'', JNum 1), (''q'', JNum 2)])]) (JObj [(''x'', JObj [(''q'', JNum 3)])])
     = JObj [(''x'', JObj [(''q'', JNum 3)])]"
    by code_simp
  have 2: "deepUpdate (JObj [(''x'', JObj [(''p'', JNum 1), (''q'', JNum 2)])]) (JObj [(''x'', JObj [(''q'', JNum 3)])])
     = Inr (JObj [(''x'', JObj [(''p'', JNum 1), (''q'', JNum 3)])])"
    by code_simp
  show ?thesis by (simp add: 1 2)
qed

text \<open>
  Claim C8. \<open>deepEqualJSON\<close> is reflexive and, on values of the domain, symmetric. Two
  objects are equal exactly when they have the same set of keys and equal values under
  each key, whatever the order of the keys; so objects with the same members in a
  different order are equal, as \<^verbatim>\<open>{a:1,b:2}\<close> and \<^verbatim>\<open>{b:2,a:1}\<close> are. \<open>equalJSON\<close>
  compares the texts and is false on that pair.
\<close>

theorem deepEqualJSON_laws:
  "deepEqualJSON a a \<and>
   (wf_json a \<and> wf_json b \<longrightarrow> deepEqualJSON a b = deepEqualJSON b a) \<and>
   (wf_json (JObj as) \<and> wf_json (JObj bs) \<longrightarrow>
      deepEqualJSON (JObj as) (JObj bs) =
        (set (map fst as) = set (map fst bs) \<and>
         (\<forall>k\<in>set (map fst as). \<exists>x y. map_of as k = Some x \<and> map_of bs k = Some y \<and> deepEqualJSON x y))) \<and>
   (wf_json (JObj as) \<and> wf_json (JObj bs) \<and> set as = set bs \<longrightarrow> deepEqualJSON (JObj as) (JObj bs)) \<and>
   deepEqualJSON (JObj [(''a'', JNum 1), (''b'', JNum 2)]) (JObj [(''b'', JNum 2), (''a'', JNum 1)]) \<and>
   \<not> equalJSON (JObj [(''a'', JNum 1), (''b'', JNum 2)]) (JObj [(''b'', JNum 2), (''a'', JNum 1)])"
proof -
  have 1: "deepEqualJSON a a"
    by (simp add: deepEqualJSON_def deepEqualHelper_refl)
  have 2: "wf_json a \<and> wf_json b \<longrightarrow> deepEqualJSON a b = deepEqualJSON b a"
    by (simp add: deepEqualJSON_def deepEqualHelper_sym)
  have 3: "wf_json (JObj as) \<and> wf_json (JObj bs) \<longrightarrow>
      deepEqualJSON (JObj as) (JObj bs) =
        (set (map fst as) = set (map fst bs) \<and>
         (\<forall>k\<in>set (map fst as). \<exists>x y. map_of as k = Some x \<and> map_of bs k = Some y \<and> deepEqualJSON x y))"
    unfolding deepEqualJSON_def using deepEqualHelper_objects [of as bs] by blast
  have 4: "deepEqualJSON (JObj as) (JObj bs)"
    if w: "wf_json (JObj as)" "wf_json (JObj bs)" and s: "set as = set bs"
  proof -
    have "\<exists>x y. map_of as k = Some x \<and> map_of bs k = Some y \<and> deepEqualHelper x y"
      if "k \<in> set (map fst as)" for k
    proof -
      from that obtain x where x: "(k, x) \<in> set as" by auto
      with w(1) have "map_of as k = Some x" by simp
      moreover from x s w(2) have "map_of bs k = Some x" by simp
      ultimately show ?thesis using deepEqualHelper_refl by blast
    qed
    moreover from s have "set (map fst as) = set (map fst bs)" by simp
    ultimately show ?thesis
      unfolding deepEqualJSON_def using deepEqualHelper_objects [OF w] by blast
  qed
  have 5: "deepEqualJSON (JObj [(''a'', JNum 1), (''b'', JNum 2)]) (JObj [(''b'', JNum 2), (''a'', JNum 1)])"
    by code_simp
  have 6: "\<not> equalJSON (JObj [(''a'', JNum 1), (''b'', JNum 2)]) (JObj [(''b'', JNum 2), (''a'', JNum 1)])"
    by code_simp
  from 1 2 3 4 5 6 show ?thesis by blast
qed

theorem deepEqualJSON_laws_witness:
  "wf_json (JObj [(''a'', JNum 1), (''b'', JArr [JNull])]) \<and>
   wf_json (JObj [(''b'', JArr [JNull]), (''a'', JNum 1)]) \<and>
   set [(''a'', JNum 1), (''b'', JArr [JNull])] = set [(''b'', JArr [JNull]), (''a'', JNum 1)] \<and>
   deepEqualJSON (JObj [(''a'', JNum 1), (''b'', JArr [JNull])]) (JObj [(''b'', JArr [JNull]), (''a'', JNum 1)]) \<and>
   deepEqualJSON (JObj [(''b'', JArr [JNull]), (''a'', JNum 1)]) (JObj [(''a'', JNum 1), (''b'', JArr [JNull])])"
proof -
  have h1: "wf_json (JObj [(''a'', JNum 1), (''b'', JArr [JNull])])" by simp
  have h2: "wf_json (JObj [(''b'', JArr [JNull]), (''a'', JNum 1)])" by simp
  have h3: "set [(''a'', JNum 1), (''b'', JArr [JNull])] = set [(''b'', JArr [JNull]), (''a'', JNum 1)]"
    by auto
  note t = deepEqualJSON_laws [of "JObj [(''a'', JNum 1), (''b'', JArr [JNull])]"
      "JObj [(''b'', JArr [JNull]), (''a'', JNum 1)]"
      "[(''a'', JNum 1), (''b'', JArr [JNull])]" "[(''b'', JArr [JNull]), (''a'', JNum 1)]"]
  from t h1 h2 h3 have a: "deepEqualJSON (JObj [(''a'', JNum 1), (''b'', JArr [JNull])]) (JObj [(''b'', JArr [JNull]), (''a'', JNum 1)])"
    by blast
  from t h1 h2 a have b: "deepEqualJSON (JObj [(''b'', JArr [JNull]), (''a'', JNum 1)]) (JObj [(''a'', JNum 1), (''b'', JArr [JNull])])"
    by blast
  from h1 h2 h3 a b show ?thesis by blast
qed

section \<open>deepUpdate member by member\<close>

text \<open>\<^verbatim>\<open>acc[key] || {}\<close> as a function of the old member.\<close>

definition existing_or_empty :: "json option \<Rightarrow> json" where
  "existing_or_empty old =
     (case old of None \<Rightarrow> JObj [] | Some v \<Rightarrow> if truthy v then v else JObj [])"

text \<open>
  The updates in which no object, reached through members that are plain objects, has
  the key \<^verbatim>\<open>__proto__\<close>: on these no assignment of \<open>deepUpdate\<close> reaches the setter.
\<close>

fun proto_free :: "json \<Rightarrow> bool" where
  "proto_free (JObj kvs) =
     (''__proto__'' \<notin> set (map fst kvs) \<and> list_all (\<lambda>kv. proto_free (snd kv)) kvs)"
| "proto_free v = True"

text \<open>The member that the reducer of \<open>deepUpdate\<close> stores for an incoming value.\<close>

definition updated_member :: "json \<Rightarrow> json option \<Rightarrow> json" where
  "updated_member v old =
     (if is_mapping v then projr (deepUpdate (existing_or_empty old) v) else v)"

lemma reduce_Inr:
  "(\<And>a x. x \<in> set xs \<Longrightarrow> f a x = Inr (g a x)) \<Longrightarrow> reduce f acc xs = Inr (foldl g acc xs)"
  by (induction xs arbitrary: acc) simp_all

lemma assign_prop_member:
  "k \<noteq> ''__proto__'' \<Longrightarrow> assign_prop k v m = Inr (AList.update k v m)"
  by (simp add: assign_prop_def)

lemma deepUpdate_object:
  "wf_json (JObj u) \<Longrightarrow> proto_free (JObj u) \<Longrightarrow>
   deepUpdate target (JObj u) =
     Inr (JObj (foldl (\<lambda>acc (key, v). AList.update key (updated_member v (map_of acc key)) acc)
             (spread target) u))"
proof (induction "JObj u" arbitrary: u target rule: measure_induct_rule [where f = size])
  case less
  have step: "(case x of (key, v) \<Rightarrow>
                 if is_mapping v
                 then case deepUpdate
                             (case map_of a key of
                                None \<Rightarrow> JObj []
                              | Some old \<Rightarrow> if truthy old then old else JObj [])
                             v of
                        Inl e \<Rightarrow> Inl e
                      | Inr new \<Rightarrow> assign_prop key new a
                 else assign_prop key v a)
              = Inr (case x of (key, v) \<Rightarrow> AList.update key (updated_member v (map_of a key)) a)"
    if x: "x \<in> set u" for a x
  proof -
    obtain key v where kv: "x = (key, v)" by (cases x)
    from x kv less.prems(2) have k: "key \<noteq> ''__proto__''" by force
    show ?thesis
    proof (cases "is_mapping v")
      case True
      then obtain w where v: "v = JObj w" by (cases v) auto
      have sz: "size (JObj w) < size (JObj u)"
        using x kv v size_member [of key v u] by simp
      have "wf_json (snd x)"
        using less.prems(1) x by (simp add: list_all_iff)
      then have wf: "wf_json (JObj w)"
        using kv v by simp
      have "proto_free (snd x)"
        using less.prems(2) x by (simp add: list_all_iff)
      then have pf: "proto_free (JObj w)"
        using kv v by simp
      from less.hyps [OF sz wf pf]
      have "\<exists>r. deepUpdate (existing_or_empty (map_of a key)) v = Inr r"
        using v by blast
      then obtain r where r: "deepUpdate (existing_or_empty (map_of a key)) v = Inr r"
        by blast
      have e: "(case map_of a key of
                  None \<Rightarrow> JObj []
                | Some old \<Rightarrow> if truthy old then old else JObj [])
               = existing_or_empty (map_of a key)"
        by (simp add: existing_or_empty_def)
      show ?thesis
        using True k r by (simp add: kv e updated_member_def assign_prop_member)
    next
      case False
      with k show ?thesis by (simp add: kv updated_member_def assign_prop_member)
    qed
  qed
  have "reduce (\<lambda>acc (key, v).
                 if is_mapping v
                 then case deepUpdate
                             (case map_of acc key of
                                None \<Rightarrow> JObj []
                              | Some old \<Rightarrow> if truthy old then old else JObj [])
                             v of
                        Inl e \<Rightarrow> Inl e
                      | Inr new \<Rightarrow> assign_prop key new acc
                 else assign_prop key v acc) (spread target) u
        = Inr (foldl (\<lambda>acc (key, v). AList.update key (updated_member v (map_of acc key)) acc)
                 (spread target) u)"
    by (rule reduce_Inr) (rule step)
  moreover have "JSON_parse (JSON_stringify (JObj u)) = Inr (JObj u)"
    using less.prems(1) by (simp only: JSON_parse_stringify norm_wf_json)
  ultimately show ?case
    by (subst deepUpdate.simps) (simp del: JSON_stringify.simps)
qed

lemma foldl_update_map_of:
  "distinct (map fst u) \<Longrightarrow>
   map_of (foldl (\<lambda>acc (k, v). AList.update k (g v (map_of acc k)) acc) t u) k =
     (case map_of u k of None \<Rightarrow> map_of t k | Some v \<Rightarrow> Some (g v (map_of t k)))"
proof (induction u arbitrary: t)
  case Nil
  then show ?case by simp
next
  case (Cons e u)
  obtain k0 v0 where e: "e = (k0, v0)" by (cases e)
  from Cons.prems e have d: "distinct (map fst u)" and n: "k0 \<notin> fst ` set u" by auto
  from n have m: "map_of u k0 = None" by (simp add: map_of_eq_None_iff)
  show ?case
    using Cons.IH [OF d, of "AList.update k0 (g v0 (map_of t k0)) t"] e m
    by (auto simp: update_conv' split: option.splits)
qed

lemma foldl_update_keys:
  "fst ` set (foldl (\<lambda>acc (k, v). AList.update k (g v (map_of acc k)) acc) t u)
   = fst ` set t \<union> fst ` set u"
proof (induction u arbitrary: t)
  case Nil
  then show ?case by simp
next
  case (Cons e u)
  obtain k0 v0 where e: "e = (k0, v0)" by (cases e)
  show ?case
    using Cons.IH [of "AList.update k0 (g v0 (map_of t k0)) t"] e
    by (simp add: dom_update)
qed

lemma foldl_update_fresh:
  assumes "distinct (map fst (acc @ u))"
    and "\<And>k v. (k, v) \<in> set u \<Longrightarrow> g v None = v"
  shows "foldl (\<lambda>acc (k, v). AList.update k (g v (map_of acc k)) acc) acc u = acc @ u"
  using assms
proof (induction u arbitrary: acc)
  case Nil
  then show ?case by simp
next
  case (Cons e u)
  obtain k0 v0 where e: "e = (k0, v0)" by (cases e)
  from Cons.prems(1) e have fresh: "k0 \<notin> fst ` set acc" by auto
  then have none: "map_of acc k0 = None" by (simp add: map_of_eq_None_iff)
  have g: "g v0 None = v0" using Cons.prems(2) [of k0 v0] e by simp
  have d: "distinct (map fst ((acc @ [(k0, v0)]) @ u))" using Cons.prems(1) e by simp
  have "foldl (\<lambda>acc (k, v). AList.update k (g v (map_of acc k)) acc) (acc @ [(k0, v0)]) u
        = (acc @ [(k0, v0)]) @ u"
    by (rule Cons.IH [OF d]) (use Cons.prems(2) in auto)
  then show ?case using e none g update_fresh [OF fresh, of v0] by simp
qed

lemma deepUpdate_into_empty:
  "wf_json v \<Longrightarrow> proto_free v \<Longrightarrow> is_mapping v \<Longrightarrow> entries old = [] \<Longrightarrow>
   deepUpdate old v = Inr v"
proof (induction v arbitrary: old rule: measure_induct_rule [where f = size])
  case (less v old)
  from less.prems(3) obtain u where v: "v = JObj u" by (cases v) auto
  have g: "updated_member x None = x" if "(k, x) \<in> set u" for k x
  proof (cases "is_mapping x")
    case True
    have "deepUpdate (JObj []) x = Inr x"
    proof (rule less.IH)
      show "size x < size v" using that v size_member by simp
      show "wf_json x" using less.prems(1) v that by (auto simp: list_all_iff)
      show "proto_free x" using less.prems(2) v that by (auto simp: list_all_iff)
      show "is_mapping x" by (rule True)
      show "entries (JObj []) = []" by simp
    qed
    with True show ?thesis by (simp add: updated_member_def existing_or_empty_def)
  next
    case False
    then show ?thesis by (simp add: updated_member_def)
  qed
  have w: "wf_json (JObj u)" using less.prems(1) v by simp
  have p: "proto_free (JObj u)" using less.prems(2) v by simp
  have "foldl (\<lambda>acc (key, v). AList.update key (updated_member v (map_of acc key)) acc) [] u = [] @ u"
    by (rule foldl_update_fresh) (use less.prems(1) v g in auto)
  then have "deepUpdate old (JObj u) = Inr (JObj u)"
    using less.prems(4) by (simp add: deepUpdate_object [OF w p] spread_def)
  with v show ?case by simp
qed

lemma deepUpdate_returns:
  "wf_json v \<Longrightarrow> proto_free v \<Longrightarrow> is_mapping v \<Longrightarrow> \<exists>r. deepUpdate old v = Inr (JObj r)"
  by (cases v) (simp_all add: deepUpdate_object)

text \<open>
  A value held in a store stands for a JSON value: a primitive for itself, a reference
  for the array or object found at its address, member by member. The set \<open>A\<close> bounds
  the addresses that may be followed.
\<close>

fun repr :: "nat set \<Rightarrow> store \<Rightarrow> hval \<Rightarrow> json \<Rightarrow> bool" where
  "repr A s x JNull = (x = HNull)"
| "repr A s x (JBool b) = (x = HBool b)"
| "repr A s x (JNum n) = (x = HNum n)"
| "repr A s x (JStr t) = (x = HStr t)"
| "repr A s x (JArr vs) =
     (case x of
        HRef a \<Rightarrow> a \<in> A \<and> a < length s \<and>
          (case s ! a of HArr es \<Rightarrow> list_all2 (repr A s) es vs | HObj ms \<Rightarrow> False)
      | _ \<Rightarrow> False)"
| "repr A s x (JObj kvs) =
     (case x of
        HRef a \<Rightarrow> a \<in> A \<and> a < length s \<and>
          (case s ! a of
             HObj ms \<Rightarrow> list_all2 (\<lambda>m kv. fst m = fst kv \<and> repr A s (snd m) (snd kv)) ms kvs
           | HArr es \<Rightarrow> False)
      | _ \<Rightarrow> False)"

text \<open>\<open>x\<close> stands for \<open>v\<close> in the store \<open>s\<close>.\<close>

definition represents :: "store \<Rightarrow> hval \<Rightarrow> json \<Rightarrow> bool" where
  "represents s x v = repr {..<length s} s x v"


definition repr_members :: "nat set \<Rightarrow> store \<Rightarrow> (string \<times> hval) list \<Rightarrow> object \<Rightarrow> bool" where
  "repr_members A s ms kvs =
     list_all2 (\<lambda>m kv. fst m = fst kv \<and> repr A s (snd m) (snd kv)) ms kvs"

lemma size_element: "x \<in> set xs \<Longrightarrow> size x < size (JArr xs)"
  by (simp add: size_list_estimation' less_Suc_eq_le)

lemma repr_transfer:
  assumes "A \<subseteq> B"
    and "\<And>a. a \<in> A \<Longrightarrow> a < length s \<Longrightarrow> a < length s' \<and> s' ! a = s ! a"
  shows "repr A s x v \<Longrightarrow> repr B s' x v"
proof (induction v arbitrary: x rule: measure_induct_rule [where f = size])
  case (less v)
  show ?case
  proof (cases v)
    case (JArr vs)
    with less.prems obtain a es where x: "x = HRef a" "a \<in> A" "a < length s"
      "s ! a = HArr es" "list_all2 (repr A s) es vs"
      by (auto split: hval.splits hobj.splits)
    have "list_all2 (repr B s') es vs"
      using x(5)
    proof (rule list.rel_mono_strong)
      fix e w assume "w \<in> set vs" "repr A s e w"
      then show "repr B s' e w"
        using less.IH [of w e] JArr size_element [of w vs] by simp
    qed
    with x assms JArr show ?thesis by auto
  next
    case (JObj kvs)
    with less.prems obtain a ms where x: "x = HRef a" "a \<in> A" "a < length s"
      "s ! a = HObj ms"
      "list_all2 (\<lambda>m kv. fst m = fst kv \<and> repr A s (snd m) (snd kv)) ms kvs"
      by (auto split: hval.splits hobj.splits)
    have "list_all2 (\<lambda>m kv. fst m = fst kv \<and> repr B s' (snd m) (snd kv)) ms kvs"
      using x(5)
    proof (rule list.rel_mono_strong)
      fix m kv assume kv: "kv \<in> set kvs" and r: "fst m = fst kv \<and> repr A s (snd m) (snd kv)"
      from kv have "size (snd kv) < size v"
        using JObj size_member [of "fst kv" "snd kv" kvs] by simp
      from less.IH [OF this] r show "fst m = fst kv \<and> repr B s' (snd m) (snd kv)"
        by simp
    qed
    with x assms JObj show ?thesis by auto
  qed (use less.prems in simp_all)
qed

lemma repr_members_transfer:
  assumes "A \<subseteq> B"
    and "\<And>a. a \<in> A \<Longrightarrow> a < length s \<Longrightarrow> a < length s' \<and> s' ! a = s ! a"
  shows "repr_members A s ms kvs \<Longrightarrow> repr_members B s' ms kvs"
  unfolding repr_members_def
  by (erule list_all2_mono) (auto intro: repr_transfer [OF assms])

lemma repr_truthy: "repr A s x v \<Longrightarrow> htruthy x = truthy v"
  by (cases v) (auto split: hval.splits)

lemma repr_entries: "repr A s x v \<Longrightarrow> repr_members A s (hentries s x) (entries v)"
proof (cases v)
  case (JArr vs)
  assume "repr A s x v"
  with JArr obtain a es where x: "x = HRef a" "a < length s"
      "s ! a = HArr es" "list_all2 (repr A s) es vs"
    by (auto split: hval.splits hobj.splits)
  from x(4) have "length es = length vs" by (rule list_all2_lengthD)
  with x JArr show ?thesis
    by (simp add: repr_members_def list_all2_conv_all_nth)
next
  case (JObj kvs)
  assume "repr A s x v"
  with JObj show ?thesis
    by (auto simp: repr_members_def split: hval.splits hobj.splits)
next
  case (JStr t)
  assume "repr A s x v"
  with JStr show ?thesis
    by (simp add: repr_members_def list_all2_conv_all_nth)
qed (auto simp: repr_members_def)

lemma repr_members_update:
  "repr_members A s ms kvs \<Longrightarrow> repr A s x v \<Longrightarrow>
   repr_members A s (AList.update k x ms) (AList.update k v kvs)"
  unfolding repr_members_def
  by (induction ms kvs rule: list_all2_induct) auto

lemma repr_members_map_of:
  "repr_members A s ms kvs \<Longrightarrow> rel_option (repr A s) (map_of ms k) (map_of kvs k)"
  unfolding repr_members_def
  by (induction ms kvs rule: list_all2_induct) auto

lemma alloc_json_repr:
  "alloc_json v s = (x, s') \<Longrightarrow>
     (\<exists>new. s' = s @ new) \<and> repr {length s..<length s'} s' x v"
  "alloc_elements vs s = (es, s') \<Longrightarrow>
     (\<exists>new. s' = s @ new) \<and> list_all2 (repr {length s..<length s'} s') es vs"
  "alloc_members kvs s = (ms, s') \<Longrightarrow>
     (\<exists>new. s' = s @ new) \<and> repr_members {length s..<length s'} s' ms kvs"
proof (induction v s and vs s and kvs s arbitrary: x s' and es s' and ms s'
    rule: alloc_json_alloc_elements_alloc_members.induct)
  case (5 xs s)
  obtain es s1 where a: "alloc_elements xs s = (es, s1)" by (cases "alloc_elements xs s")
  from "5.IH" [OF a] obtain new where n: "s1 = s @ new"
    and r: "list_all2 (repr {length s..<length s1} s1) es xs" by blast
  from "5.prems" a have x: "x = HRef (length s1)" and s': "s' = s1 @ [HArr es]" by simp_all
  have "list_all2 (repr {length s..<length s'} s') es xs"
    using r
  proof (rule list_all2_mono)
    fix e w assume "repr {length s..<length s1} s1 e w"
    then show "repr {length s..<length s'} s' e w"
      by (rule repr_transfer [rotated 2]) (auto simp: s' nth_append)
  qed
  with x s' n show ?case by (auto simp: nth_append)
next
  case (6 kvs s)
  obtain ms s1 where a: "alloc_members kvs s = (ms, s1)" by (cases "alloc_members kvs s")
  from "6.IH" [OF a] obtain new where n: "s1 = s @ new"
    and r: "repr_members {length s..<length s1} s1 ms kvs" by blast
  from "6.prems" a have x: "x = HRef (length s1)" and s': "s' = s1 @ [HObj ms]" by simp_all
  have "repr_members {length s..<length s'} s' ms kvs"
    using r by (rule repr_members_transfer [rotated 2]) (auto simp: s' nth_append)
  with x s' n show ?case by (auto simp: nth_append repr_members_def)
next
  case (8 v vs s)
  obtain e s1 where a: "alloc_json v s = (e, s1)" by (cases "alloc_json v s")
  obtain es' s2 where b: "alloc_elements vs s1 = (es', s2)" by (cases "alloc_elements vs s1")
  from "8.IH"(1) [OF a] obtain n1 where n1: "s1 = s @ n1"
    and r1: "repr {length s..<length s1} s1 e v" by blast
  from "8.IH"(2) [OF a [symmetric] b] obtain n2 where n2: "s2 = s1 @ n2"
    and r2: "list_all2 (repr {length s1..<length s2} s2) es' vs" by blast
  from "8.prems" a b have es: "es = e # es'" and s': "s' = s2" by simp_all
  have "repr {length s..<length s2} s2 e v"
    using r1 by (rule repr_transfer [rotated 2]) (auto simp: n2 nth_append)
  moreover have "list_all2 (repr {length s..<length s2} s2) es' vs"
    using r2
  proof (rule list_all2_mono)
    fix e w assume "repr {length s1..<length s2} s2 e w"
    then show "repr {length s..<length s2} s2 e w"
      by (rule repr_transfer [rotated 2]) (auto simp: n1)
  qed
  ultimately show ?case using es s' n1 n2 by auto
next
  case (10 k v kvs s)
  obtain e s1 where a: "alloc_json v s = (e, s1)" by (cases "alloc_json v s")
  obtain ms' s2 where b: "alloc_members kvs s1 = (ms', s2)" by (cases "alloc_members kvs s1")
  from "10.IH"(1) [OF a] obtain n1 where n1: "s1 = s @ n1"
    and r1: "repr {length s..<length s1} s1 e v" by blast
  from "10.IH"(2) [OF a [symmetric] b] obtain n2 where n2: "s2 = s1 @ n2"
    and r2: "repr_members {length s1..<length s2} s2 ms' kvs" by blast
  from "10.prems" a b have ms: "ms = (k, e) # ms'" and s': "s' = s2" by simp_all
  have "repr {length s..<length s2} s2 e v"
    using r1 by (rule repr_transfer [rotated 2]) (auto simp: n2 nth_append)
  moreover have "repr_members {length s..<length s2} s2 ms' kvs"
    using r2 by (rule repr_members_transfer [rotated 2]) (auto simp: n1)
  ultimately show ?case using ms s' n1 n2 by (auto simp: repr_members_def)
qed (auto simp: repr_members_def)


lemma hassign_invariant:
  assumes A: "A \<subseteq> {..<a}" and a: "a < length s1" and ms: "s1 ! a = HObj ms"
    and rm: "repr_members (A \<union> {a<..<length s1}) s1 ms acc"
    and len: "length s1 \<le> length s3" and agree: "\<And>b. b < length s1 \<Longrightarrow> s3 ! b = s1 ! b"
    and D: "D \<subseteq> A \<union> {a<..<length s3}" and y: "repr D s3 y val"
    and key: "key \<noteq> ''__proto__''"
  shows "\<exists>s4 ms'. hassign a key y s3 = Inr s4 \<and> length s4 = length s3 \<and>
           take a s4 = take a s1 \<and> s4 ! a = HObj ms' \<and>
           repr_members (A \<union> {a<..<length s4}) s4 ms' (AList.update key val acc)"
proof -
  let ?s4 = "s3[a := HObj (AList.update key y ms)]"
  let ?C = "A \<union> {a<..<length ?s4}"
  from a agree ms have m3: "s3 ! a = HObj ms" by simp
  with key have 1: "hassign a key y s3 = Inr ?s4" by (simp add: hassign_def)
  have 2: "take a ?s4 = take a s1"
  proof -
    have "take a ?s4 = take a s3" by simp
    also have "take a s3 = take a s1"
      using a len agree by (intro nth_take_lemma) auto
    finally show ?thesis .
  qed
  have na: "a \<notin> A" using A by auto
  have 3: "repr_members ?C ?s4 ms acc"
    using rm
  proof (rule repr_members_transfer [rotated 2])
    show "A \<union> {a<..<length s1} \<subseteq> ?C" using len by auto
    fix b assume "b \<in> A \<union> {a<..<length s1}" "b < length s1"
    then have "b \<noteq> a" "b < length s3" "s3 ! b = s1 ! b" using na len agree by auto
    then show "b < length ?s4 \<and> ?s4 ! b = s1 ! b" by simp
  qed
  have 4: "repr ?C ?s4 y val"
    using y
  proof (rule repr_transfer [rotated 2])
    show "D \<subseteq> ?C" using D by simp
    fix b assume "b \<in> D" "b < length s3"
    then have "b \<noteq> a" "b < length s3" using D na by auto
    then show "b < length ?s4 \<and> ?s4 ! b = s3 ! b" by simp
  qed
  have 5: "?s4 ! a = HObj (AList.update key y ms)" using a len by simp
  from 1 2 3 4 5 show ?thesis
    by (intro exI [of _ ?s4] exI [of _ "AList.update key y ms"])
       (simp add: repr_members_update)
qed

lemma existing_or_new_repr:
  assumes ms: "s1 ! a = HObj ms" and rm: "repr_members B s1 ms acc"
    and e: "existing_or_new a key s1 = (existing, s2)"
  shows "(\<exists>new. s2 = s1 @ new) \<and>
         repr (B \<union> {length s1..<length s2}) s2 existing (existing_or_empty (map_of acc key))"
proof -
  from repr_members_map_of [OF rm, of key]
  have rel: "rel_option (repr B s1) (map_of ms key) (map_of acc key)" .
  show ?thesis
  proof (cases "\<exists>old. map_of ms key = Some old \<and> htruthy old")
    case True
    then obtain old where old: "map_of ms key = Some old" "htruthy old" by blast
    with rel obtain ov where ov: "map_of acc key = Some ov" "repr B s1 old ov"
      by (auto simp: option_rel_Some1)
    with old have "truthy ov" using repr_truthy by blast
    with old ov e ms show ?thesis
      by (auto simp: existing_or_new_def hmember_def existing_or_empty_def)
  next
    case False
    then have "existing = HRef (length s1) \<and> s2 = s1 @ [HObj []]"
      using e ms by (auto simp: existing_or_new_def hmember_def split: option.splits if_splits)
    moreover have "existing_or_empty (map_of acc key) = JObj []"
    proof (cases "map_of acc key")
      case None
      then show ?thesis by (simp add: existing_or_empty_def)
    next
      case (Some ov)
      with rel obtain old where "map_of ms key = Some old" "repr B s1 old ov"
        by (auto simp: option_rel_Some2)
      with False repr_truthy have "\<not> truthy ov" by blast
      with Some show ?thesis by (simp add: existing_or_empty_def)
    qed
    ultimately show ?thesis by simp
  qed
qed

lemma deepUpdate_s_simulates:
  assumes "wf_json (JObj u)" "proto_free (JObj u)" "A \<subseteq> {..<length s}" "repr A s target t"
  shows "\<exists>s' r. deepUpdate_s s target (JObj u) = Inr (HRef (length s), s') \<and>
           length s < length s' \<and> take (length s) s' = s \<and>
           deepUpdate t (JObj u) = Inr (JObj r) \<and>
           repr (A \<union> {length s..<length s'}) s' (HRef (length s)) (JObj r)"
  using assms
proof (induction "JObj u" arbitrary: u s target t A rule: measure_induct_rule [where f = size])
  case less
  define a where "a = length s"
  define stepS :: "store \<Rightarrow> string \<times> json \<Rightarrow> unmodelled + store" where "stepS =
     (\<lambda>s1 (key, v).
        if is_mapping v
        then case existing_or_new a key s1 of
               (existing, s2) \<Rightarrow>
                 (case deepUpdate_s s2 existing v of
                    Inl e \<Rightarrow> Inl e
                  | Inr (new, s3) \<Rightarrow> hassign a key new s3)
        else case alloc_json v s1 of
               (x, s2) \<Rightarrow> hassign a key x s2)"
  define stepV :: "object \<Rightarrow> string \<times> json \<Rightarrow> object" where "stepV =
     (\<lambda>acc (key, v). AList.update key (updated_member v (map_of acc key)) acc)"
  define Inv where "Inv =
     (\<lambda>s1 acc. a < length s1 \<and> take a s1 = s \<and>
        (\<exists>ms. s1 ! a = HObj ms \<and> repr_members (A \<union> {a<..<length s1}) s1 ms acc))"
  have A: "A \<subseteq> {..<a}" using less.prems(3) by (simp add: a_def)
  have step: "\<exists>s4. stepS s1 x = Inr s4 \<and> Inv s4 (stepV acc x)"
    if x: "x \<in> set u" and inv: "Inv s1 acc" for s1 acc x
  proof -
    obtain key v where kv: "x = (key, v)" by (cases x)
    from x kv less.prems(2) have key: "key \<noteq> ''__proto__''" by force
    from inv obtain ms where a1: "a < length s1" and fr: "take a s1 = s"
      and ms: "s1 ! a = HObj ms"
      and rm: "repr_members (A \<union> {a<..<length s1}) s1 ms acc"
      by (auto simp: Inv_def)
    show ?thesis
    proof (cases "is_mapping v")
      case True
      then obtain w where v: "v = JObj w" by (cases v) auto
      have sz: "size (JObj w) < size (JObj u)"
        using x kv v size_member [of key v u] by simp
      have "wf_json (snd x)" using less.prems(1) x by (simp add: list_all_iff)
      then have wf: "wf_json (JObj w)" using kv v by simp
      have "proto_free (snd x)" using less.prems(2) x by (simp add: list_all_iff)
      then have pf: "proto_free (JObj w)" using kv v by simp
      obtain existing s2 where e: "existing_or_new a key s1 = (existing, s2)"
        by (cases "existing_or_new a key s1")
      let ?B2 = "(A \<union> {a<..<length s1}) \<union> {length s1..<length s2}"
      let ?ev = "existing_or_empty (map_of acc key)"
      from existing_or_new_repr [OF ms rm e] obtain new where s2: "s2 = s1 @ new"
        and re: "repr ?B2 s2 existing ?ev" by blast
      have B2: "?B2 \<subseteq> {..<length s2}" using A a1 s2 by auto
      from less.hyps [OF sz wf pf B2 re] obtain s3 r where
        S: "deepUpdate_s s2 existing (JObj w) = Inr (HRef (length s2), s3)"
        and l3: "length s2 < length s3" and f3: "take (length s2) s3 = s2"
        and V: "deepUpdate ?ev (JObj w) = Inr (JObj r)"
        and rr: "repr (?B2 \<union> {length s2..<length s3}) s3 (HRef (length s2)) (JObj r)"
        by blast
      have agree: "s3 ! b = s1 ! b" if "b < length s1" for b
      proof -
        from that s2 have "b < length s2" by simp
        then have "s3 ! b = take (length s2) s3 ! b" by simp
        with f3 s2 that show ?thesis by (simp add: nth_append)
      qed
      have len: "length s1 \<le> length s3" using s2 l3 by simp
      have D: "?B2 \<union> {length s2..<length s3} \<subseteq> A \<union> {a<..<length s3}"
        using a1 s2 l3 by auto
      from hassign_invariant [OF A a1 ms rm len agree D rr key]
      obtain s4 ms' where h: "hassign a key (HRef (length s2)) s3 = Inr s4"
        and l4: "length s4 = length s3" and t4: "take a s4 = take a s1"
        and m4: "s4 ! a = HObj ms'"
        and r4: "repr_members (A \<union> {a<..<length s4}) s4 ms' (AList.update key (JObj r) acc)"
        by blast
      have "stepS s1 x = Inr s4"
        using True e S h by (simp add: stepS_def kv v)
      moreover have "stepV acc x = AList.update key (JObj r) acc"
        using True V by (simp add: stepV_def kv v updated_member_def)
      moreover have "Inv s4 (AList.update key (JObj r) acc)"
        using a1 len l4 t4 fr m4 r4 by (auto simp: Inv_def)
      ultimately show ?thesis by simp
    next
      case False
      obtain y s2 where al: "alloc_json v s1 = (y, s2)" by (cases "alloc_json v s1")
      from alloc_json_repr(1) [OF al] obtain new where s2: "s2 = s1 @ new"
        and ry: "repr {length s1..<length s2} s2 y v" by blast
      have agree: "s2 ! b = s1 ! b" if "b < length s1" for b
        using that s2 by (simp add: nth_append)
      have len: "length s1 \<le> length s2" using s2 by simp
      have D: "{length s1..<length s2} \<subseteq> A \<union> {a<..<length s2}" using a1 by auto
      from hassign_invariant [OF A a1 ms rm len agree D ry key]
      obtain s4 ms' where h: "hassign a key y s2 = Inr s4"
        and l4: "length s4 = length s2" and t4: "take a s4 = take a s1"
        and m4: "s4 ! a = HObj ms'"
        and r4: "repr_members (A \<union> {a<..<length s4}) s4 ms' (AList.update key v acc)"
        by blast
      have "stepS s1 x = Inr s4"
        using False al h by (simp add: stepS_def kv)
      moreover have "stepV acc x = AList.update key v acc"
        using False by (simp add: stepV_def kv updated_member_def)
      moreover have "Inv s4 (AList.update key v acc)"
        using a1 len l4 t4 fr m4 r4 by (auto simp: Inv_def)
      ultimately show ?thesis by simp
    qed
  qed
  have loop: "\<exists>s2. reduce stepS s1 us = Inr s2 \<and> Inv s2 (foldl stepV acc us)"
    if "set us \<subseteq> set u" "Inv s1 acc" for us s1 acc
    using that
  proof (induction us arbitrary: s1 acc)
    case Nil
    then show ?case by simp
  next
    case (Cons x us)
    from Cons.prems have "x \<in> set u" by simp
    from step [OF this Cons.prems(2)] obtain s4 where
      s4: "stepS s1 x = Inr s4" "Inv s4 (stepV acc x)" by blast
    from Cons.IH [OF _ s4(2)] Cons.prems(1) obtain s2 where
      "reduce stepS s4 us = Inr s2 \<and> Inv s2 (foldl stepV (stepV acc x) us)" by auto
    with s4 show ?case by simp
  qed
  have init: "Inv (s @ [HObj (hentries s target)]) (spread t)"
  proof -
    have "repr_members A s (hentries s target) (entries t)"
      by (rule repr_entries [OF less.prems(4)])
    then have "repr_members (A \<union> {a<..<length (s @ [HObj (hentries s target)])})
                 (s @ [HObj (hentries s target)]) (hentries s target) (entries t)"
      by (rule repr_members_transfer [rotated 2]) (use A in \<open>auto simp: nth_append a_def\<close>)
    then show ?thesis by (simp add: Inv_def a_def spread_def)
  qed
  from loop [OF subset_refl init] obtain s' where
    red: "reduce stepS (s @ [HObj (hentries s target)]) u = Inr s'"
    and inv: "Inv s' (foldl stepV (spread t) u)" by blast
  have parse: "JSON_parse (JSON_stringify (JObj u)) = Inr (JObj u)"
    using less.prems(1) by (simp only: JSON_parse_stringify norm_wf_json)
  have S: "deepUpdate_s s target (JObj u) = Inr (HRef (length s), s')"
    using red [unfolded stepS_def a_def] parse
    by (subst deepUpdate_s.simps) (simp del: JSON_stringify.simps)
  have V: "deepUpdate t (JObj u) = Inr (JObj (foldl stepV (spread t) u))"
    unfolding stepV_def by (rule deepUpdate_object [OF less.prems(1,2)])
  from inv obtain ms where a1: "a < length s'" and fr: "take a s' = s"
    and ms: "s' ! a = HObj ms"
    and rm: "repr_members (A \<union> {a<..<length s'}) s' ms (foldl stepV (spread t) u)"
    by (auto simp: Inv_def)
  have "repr_members (A \<union> {a..<length s'}) s' ms (foldl stepV (spread t) u)"
    using rm by (rule repr_members_transfer [rotated 2]) auto
  with a1 ms have R: "repr (A \<union> {a..<length s'}) s' (HRef a) (JObj (foldl stepV (spread t) u))"
    by (simp add: repr_members_def)
  from S V R a1 fr show ?case by (auto simp: a_def)
qed

text \<open>
  A store for the example: the target \<^verbatim>\<open>{a:5, b:{c:null}, z:{}}\<close> at address 2, its
  members \<^verbatim>\<open>b\<close> and \<^verbatim>\<open>z\<close> at 0 and 1.
\<close>

definition store_example :: store where
  "store_example =
     [HObj [(''c'', HNull)], HObj [],
      HObj [(''a'', HNum 5), (''b'', HRef 0), (''z'', HRef 1)]]"

text \<open>
  Claim C2, as the code has it. Let the updates \<open>JObj u\<close> have no key \<^verbatim>\<open>__proto__\<close> in any
  object reached through members that are plain objects, and let \<open>target\<close> stand for the
  value \<open>t\<close> in the store \<open>s\<close>. Then \<open>deepUpdate\<close> returns an object whose keys are those
  of the spread target and of \<open>u\<close>. A key that \<open>u\<close> lacks keeps the target's member.
  Under a key of \<open>u\<close> with incoming value \<open>v\<close> the result holds \<open>v\<close> itself when \<open>v\<close> is
  not a plain object, and otherwise the update by \<open>v\<close> of the existing member (of the
  empty object, when that member is absent or falsy). That inner update starts from the
  spread of the existing member: an existing object is combined with \<open>v\<close>; an existing
  value without own enumerable properties (a number, a boolean, the empty object) is
  replaced by \<open>v\<close> as a whole; an existing array or non-empty string contributes its
  index keys.

  In the store the call returns the address \<open>length s\<close>, which held no object before: the
  result is a new object. Every object of \<open>s\<close> is in the final store what it was in \<open>s\<close>:
  neither the target nor anything else is mutated. The new object stands for the value
  that \<open>deepUpdate\<close> computes. Every value is held in some store.
\<close>

theorem deepUpdate_members:
  "wf_json (JObj u) \<Longrightarrow> proto_free (JObj u) \<Longrightarrow> represents s target t \<Longrightarrow>
     (\<exists>r s'. deepUpdate t (JObj u) = Inr (JObj r) \<and>
          fst ` set r = fst ` set (spread t) \<union> fst ` set u \<and>
          (\<forall>k. map_of u k = None \<longrightarrow> map_of r k = map_of (spread t) k) \<and>
          (\<forall>k v. map_of u k = Some v \<longrightarrow>
             (\<exists>x. map_of r k = Some x \<and>
                  (if is_mapping v
                   then deepUpdate (existing_or_empty (map_of (spread t) k)) v = Inr x
                   else x = v))) \<and>
          deepUpdate_s s target (JObj u) = Inr (HRef (length s), s') \<and>
          length s < length s' \<and> take (length s) s' = s \<and>
          represents s' (HRef (length s)) (JObj r)) \<and>
     spread (JObj kvs) = kvs \<and>
     (entries old = [] \<longrightarrow> deepUpdate old (JObj u) = Inr (JObj u)) \<and>
     represents (snd (alloc_json v0 [])) (fst (alloc_json v0 [])) v0"
proof -
  assume w: "wf_json (JObj u)" and p: "proto_free (JObj u)" and rp: "represents s target t"
  let ?r = "foldl (\<lambda>acc (key, v). AList.update key (updated_member v (map_of acc key)) acc)
              (spread t) u"
  have 1: "deepUpdate t (JObj u) = Inr (JObj ?r)"
    by (rule deepUpdate_object [OF w p])
  have 2: "fst ` set ?r = fst ` set (spread t) \<union> fst ` set u"
    by (rule foldl_update_keys)
  from w have d: "distinct (map fst u)" by simp
  have m: "map_of ?r k =
             (case map_of u k of
                None \<Rightarrow> map_of (spread t) k
              | Some v \<Rightarrow> Some (updated_member v (map_of (spread t) k)))" for k
    by (rule foldl_update_map_of [OF d])
  have 3: "\<forall>k. map_of u k = None \<longrightarrow> map_of ?r k = map_of (spread t) k"
    by (simp add: m)
  have 4: "\<forall>k v. map_of u k = Some v \<longrightarrow>
             (\<exists>x. map_of ?r k = Some x \<and>
                  (if is_mapping v
                   then deepUpdate (existing_or_empty (map_of (spread t) k)) v = Inr x
                   else x = v))"
  proof (intro allI impI)
    fix k v assume kv: "map_of u k = Some v"
    then have "(k, v) \<in> set u" by (rule map_of_SomeD)
    then have "wf_json (snd (k, v))" "proto_free (snd (k, v))"
      using w p by (simp_all add: list_all_iff del: snd_conv)
    then have wv: "wf_json v" and pv: "proto_free v" by simp_all
    have "deepUpdate (existing_or_empty (map_of (spread t) k)) v
          = Inr (updated_member v (map_of (spread t) k))" if "is_mapping v"
    proof -
      from deepUpdate_returns [OF wv pv that, of "existing_or_empty (map_of (spread t) k)"]
      obtain r where "deepUpdate (existing_or_empty (map_of (spread t) k)) v = Inr (JObj r)"
        by blast
      then show ?thesis using that by (simp add: updated_member_def)
    qed
    moreover have "updated_member v (map_of (spread t) k) = v" if "\<not> is_mapping v"
      using that by (simp add: updated_member_def)
    ultimately show "\<exists>x. map_of ?r k = Some x \<and>
                  (if is_mapping v
                   then deepUpdate (existing_or_empty (map_of (spread t) k)) v = Inr x
                   else x = v)"
      using kv by (simp add: m)
  qed
  from deepUpdate_s_simulates [OF w p subset_refl rp [unfolded represents_def]]
  obtain s' r where S: "deepUpdate_s s target (JObj u) = Inr (HRef (length s), s')"
    and l: "length s < length s'" and f: "take (length s) s' = s"
    and V: "deepUpdate t (JObj u) = Inr (JObj r)"
    and R: "repr ({..<length s} \<union> {length s..<length s'}) s' (HRef (length s)) (JObj r)"
    by blast
  from V 1 have r: "r = ?r" by simp
  have "{..<length s} \<union> {length s..<length s'} = {..<length s'}"
    using l by auto
  with R r have 5: "represents s' (HRef (length s)) (JObj ?r)"
    by (simp add: represents_def)
  have 6: "entries old = [] \<longrightarrow> deepUpdate old (JObj u) = Inr (JObj u)"
    using deepUpdate_into_empty [OF w p] by simp
  have 7: "spread (JObj kvs) = kvs" by (simp add: spread_def)
  have 8: "represents (snd (alloc_json v0 [])) (fst (alloc_json v0 [])) v0"
    using alloc_json_repr(1) [of v0 "[]" "fst (alloc_json v0 [])" "snd (alloc_json v0 [])"]
    by (simp add: represents_def atLeast0LessThan)
  from 1 2 3 4 S l f 5 6 7 8 show ?thesis by blast
qed

theorem deepUpdate_members_witness:
  "wf_json (JObj [(''b'', JObj [(''d'', JNum 2)]), (''z'', JArr [])]) \<and>
   proto_free (JObj [(''b'', JObj [(''d'', JNum 2)]), (''z'', JArr [])]) \<and>
   represents store_example (HRef 2)
     (JObj [(''a'', JNum 5), (''b'', JObj [(''c'', JNull)]), (''z'', JObj [])]) \<and>
   deepUpdate (JObj [(''a'', JNum 5), (''b'', JObj [(''c'', JNull)]), (''z'', JObj [])])
              (JObj [(''b'', JObj [(''d'', JNum 2)]), (''z'', JArr [])])
     = Inr (JObj [(''a'', JNum 5), (''b'', JObj [(''c'', JNull), (''d'', JNum 2)]), (''z'', JArr [])]) \<and>
   deepUpdate_s store_example (HRef 2) (JObj [(''b'', JObj [(''d'', JNum 2)]), (''z'', JArr [])])
     = Inr (HRef 3,
            store_example @
            [HObj [(''a'', HNum 5), (''b'', HRef 4), (''z'', HRef 5)],
             HObj [(''c'', HNull), (''d'', HNum 2)], HArr []]) \<and>
   represents
     (store_example @
      [HObj [(''a'', HNum 5), (''b'', HRef 4), (''z'', HRef 5)],
       HObj [(''c'', HNull), (''d'', HNum 2)], HArr []])
     (HRef 3)
     (JObj [(''a'', JNum 5), (''b'', JObj [(''c'', JNull), (''d'', JNum 2)]), (''z'', JArr [])]) \<and>
   entries (JNum 7) = [] \<and>
   deepUpdate (JNum 7) (JObj [(''b'', JObj [(''d'', JNum 2)]), (''z'', JArr [])])
     = Inr (JObj [(''b'', JObj [(''d'', JNum 2)]), (''z'', JArr [])])"
proof -
  have h1: "wf_json (JObj [(''b'', JObj [(''d'', JNum 2)]), (''z'', JArr [])])" by simp
  have h2: "proto_free (JObj [(''b'', JObj [(''d'', JNum 2)]), (''z'', JArr [])])" by simp
  have h3: "represents store_example (HRef 2)
     (JObj [(''a'', JNum 5), (''b'', JObj [(''c'', JNull)]), (''z'', JObj [])])"
    by (simp add: represents_def store_example_def)
  have e1: "deepUpdate (JObj [(''a'', JNum 5), (''b'', JObj [(''c'', JNull)]), (''z'', JObj [])])
              (JObj [(''b'', JObj [(''d'', JNum 2)]), (''z'', JArr [])])
     = Inr (JObj [(''a'', JNum 5), (''b'', JObj [(''c'', JNull), (''d'', JNum 2)]), (''z'', JArr [])])"
    by code_simp
  have e2: "deepUpdate_s store_example (HRef 2) (JObj [(''b'', JObj [(''d'', JNum 2)]), (''z'', JArr [])])
     = Inr (HRef 3,
            store_example @
            [HObj [(''a'', HNum 5), (''b'', HRef 4), (''z'', HRef 5)],
             HObj [(''c'', HNull), (''d'', HNum 2)], HArr []])"
    by code_simp
  have l: "length store_example = 3" by (simp add: store_example_def)
  from deepUpdate_members [OF h1 h2 h3, of "[]" "JNum 7" JNull]
  obtain r s' where
    t1: "deepUpdate (JObj [(''a'', JNum 5), (''b'', JObj [(''c'', JNull)]), (''z'', JObj [])])
              (JObj [(''b'', JObj [(''d'', JNum 2)]), (''z'', JArr [])]) = Inr (JObj r)"
    and t2: "deepUpdate_s store_example (HRef 2)
               (JObj [(''b'', JObj [(''d'', JNum 2)]), (''z'', JArr [])])
             = Inr (HRef (length store_example), s')"
    and t3: "represents s' (HRef (length store_example)) (JObj r)"
    and t4: "entries (JNum 7) = [] \<longrightarrow>
         deepUpdate (JNum 7) (JObj [(''b'', JObj [(''d'', JNum 2)]), (''z'', JArr [])])
           = Inr (JObj [(''b'', JObj [(''d'', JNum 2)]), (''z'', JArr [])])"
    by blast
  from t1 e1 have r: "r = [(''a'', JNum 5), (''b'', JObj [(''c'', JNull), (''d'', JNum 2)]), (''z'', JArr [])]"
    by simp
  from t2 e2 have s': "s' = store_example @
            [HObj [(''a'', HNum 5), (''b'', HRef 4), (''z'', HRef 5)],
             HObj [(''c'', HNull), (''d'', HNum 2)], HArr []]"
    by simp
  from t3 have t3': "represents
     (store_example @
      [HObj [(''a'', HNum 5), (''b'', HRef 4), (''z'', HRef 5)],
       HObj [(''c'', HNull), (''d'', HNum 2)], HArr []])
     (HRef 3)
     (JObj [(''a'', JNum 5), (''b'', JObj [(''c'', JNull), (''d'', JNum 2)]), (''z'', JArr [])])"
    by (simp only: r s' l)
  have e: "entries (JNum 7) = []" by simp
  with t4 have t4': "deepUpdate (JNum 7) (JObj [(''b'', JObj [(''d'', JNum 2)]), (''z'', JArr [])])
           = Inr (JObj [(''b'', JObj [(''d'', JNum 2)]), (''z'', JArr [])])"
    by blast
  from h1 h2 h3 e1 e2 t3' e t4' show ?thesis by blast
qed

text \<open>
  The claim as stated ("a non-mapping existing value such as an array is replaced by an
  incoming mapping as a whole") fails: the index keys of the existing array stay. Under
  the key \<^verbatim>\<open>__proto__\<close> an incoming number does not replace anything, and an incoming
  object becomes the prototype of the result.
\<close>

theorem deepUpdate_array_counterexample:
  "deepUpdate (JObj [(''a'', JArr [JNum 1, JNum 2])]) (JObj [(''a'', JObj [(''x'', JNum 1)])])
     = Inr (JObj [(''a'', JObj [(''0'', JNum 1), (''1'', JNum 2), (''x'', JNum 1)])]) \<and>
   deepUpdate (JObj [(''a'', JNum 1)]) (JObj [(''__proto__'', JNum 1)])
     = Inr (JObj [(''a'', JNum 1)]) \<and>
   deepUpdate (JObj [(''a'', JNum 1)]) (JObj [(''__proto__'', JObj [(''x'', JNum 1)])])
     = Inl PrototypeReplaced"
  by code_simp

section \<open>mergeUniqueByKey keeps first occurrences\<close>

text \<open>
  Three heaps for the examples. In \<open>heap_equal_arrays\<close> the objects at 3 and 4 hold, under
  \<^verbatim>\<open>id\<close>, two different arrays with the same content \<^verbatim>\<open>[1]\<close>. \<open>heap_records\<close> is the
  input \<^verbatim>\<open>[[{id:1,n:"A"},{id:2,n:"B"}],[{id:2,n:"B2"},{id:3,n:"C"}]]\<close>, and
  \<open>heap_shadowed\<close> the input \<^verbatim>\<open>[[{hasOwnProperty:1,id:1}]]\<close>.
\<close>

definition heap_equal_arrays :: heap where
  "heap_equal_arrays =
     map_of [(1, HArr [HNum 1]), (2, HArr [HNum 1]),
             (3, HObj [(''id'', HRef 1)]), (4, HObj [(''id'', HRef 2)]),
             (5, HArr [HRef 3, HRef 4]), (6, HArr [HRef 5])]"

definition heap_records :: heap where
  "heap_records =
     map_of [(1, HObj [(''id'', HNum 1), (''n'', HStr ''A'')]),
             (2, HObj [(''id'', HNum 2), (''n'', HStr ''B'')]),
             (3, HObj [(''id'', HNum 2), (''n'', HStr ''B2'')]),
             (4, HObj [(''id'', HNum 3), (''n'', HStr ''C'')]),
             (5, HArr [HRef 1, HRef 2]), (6, HArr [HRef 3, HRef 4]),
             (7, HArr [HRef 5, HRef 6])]"

definition heap_shadowed :: heap where
  "heap_shadowed =
     map_of [(1, HObj [(''hasOwnProperty'', HNum 1), (''id'', HNum 1)]),
             (2, HArr [HRef 1]), (3, HArr [HRef 2])]"

text \<open>The reducer as it runs when no call throws.\<close>

definition keep_step :: "heap \<Rightarrow> string \<Rightarrow> hval list \<Rightarrow> hval \<Rightarrow> hval list" where
  "keep_step h key acc obj =
     (if eligible h key obj \<and> \<not> list_ex (\<lambda>item. hget h item key = hget h obj key) acc
      then acc @ [obj]
      else acc)"

lemma merge_step_keep:
  "\<not> shadows_method h x \<Longrightarrow> merge_step h key acc x = Inr (keep_step h key acc x)"
  by (auto simp: merge_step_def keep_step_def hasOwnProperty_def shadows_method_def eligible_def)

lemma merge_step_throws:
  "shadows_method h x \<Longrightarrow> merge_step h key acc x = Inl TypeError"
  by (simp add: merge_step_def hasOwnProperty_def shadows_method_def)

lemma reduce_keep:
  "\<forall>x\<in>set xs. \<not> shadows_method h x \<Longrightarrow>
   reduce (merge_step h key) acc xs = Inr (foldl (keep_step h key) acc xs)"
  by (induction xs arbitrary: acc) (simp_all add: merge_step_keep)

lemma reduce_throws:
  "\<exists>x\<in>set xs. shadows_method h x \<Longrightarrow> reduce (merge_step h key) acc xs = Inl TypeError"
proof (induction xs arbitrary: acc)
  case Nil
  then show ?case by simp
next
  case (Cons x xs)
  show ?case
  proof (cases "shadows_method h x")
    case True
    then show ?thesis by (simp add: merge_step_throws)
  next
    case False
    with Cons.prems have "\<exists>x\<in>set xs. shadows_method h x" by simp
    with False Cons.IH show ?thesis by (simp add: merge_step_keep)
  qed
qed

lemma keep_step_cases:
  "keep_step h key acc x =
     (if eligible h key x \<and> hget h x key \<notin> (\<lambda>a. hget h a key) ` set acc then acc @ [x] else acc)"
proof -
  have "list_ex (\<lambda>item. hget h item key = hget h x key) acc \<longleftrightarrow>
        hget h x key \<in> (\<lambda>a. hget h a key) ` set acc"
  proof
    assume "list_ex (\<lambda>item. hget h item key = hget h x key) acc"
    then obtain item where "item \<in> set acc" "hget h item key = hget h x key"
      by (auto simp: list_ex_iff)
    then show "hget h x key \<in> (\<lambda>a. hget h a key) ` set acc" by (metis imageI)
  next
    assume "hget h x key \<in> (\<lambda>a. hget h a key) ` set acc"
    then show "list_ex (\<lambda>item. hget h item key = hget h x key) acc"
      by (auto simp: list_ex_iff)
  qed
  then show ?thesis by (simp add: keep_step_def)
qed

lemma merge_loop_extends:
  "\<exists>zs. foldl (keep_step h key) acc xs = acc @ zs \<and> subseq zs xs"
proof (induction xs arbitrary: acc)
  case Nil
  then show ?case by simp
next
  case (Cons x xs)
  from Cons.IH [of "keep_step h key acc x"] obtain zs where
    zs: "foldl (keep_step h key) (keep_step h key acc x) xs = keep_step h key acc x @ zs"
      "subseq zs xs"
    by blast
  show ?case
  proof (cases "keep_step h key acc x = acc")
    case True
    with zs show ?thesis by (intro exI [of _ zs]) (auto intro: list_emb_Cons)
  next
    case False
    then have "keep_step h key acc x = acc @ [x]" by (simp add: keep_step_def split: if_splits)
    with zs show ?thesis by (intro exI [of _ "x # zs"]) simp
  qed
qed

lemma merge_loop_invariant:
  "list_all (eligible h key) acc \<Longrightarrow> distinct (map (\<lambda>a. hget h a key) acc) \<Longrightarrow>
   list_all (eligible h key) (foldl (keep_step h key) acc xs) \<and>
   distinct (map (\<lambda>a. hget h a key) (foldl (keep_step h key) acc xs))"
proof (induction xs arbitrary: acc)
  case Nil
  then show ?case by simp
next
  case (Cons x xs)
  have "list_all (eligible h key) (keep_step h key acc x)"
    using Cons.prems(1) by (simp add: keep_step_cases)
  moreover have "distinct (map (\<lambda>a. hget h a key) (keep_step h key acc x))"
    using Cons.prems(2) by (simp add: keep_step_cases)
  ultimately show ?case using Cons.IH [of "keep_step h key acc x"] by simp
qed

lemma merge_loop_keeps:
  "a \<in> set acc \<Longrightarrow> a \<in> set (foldl (keep_step h key) acc xs)"
  using merge_loop_extends [of h key acc xs] by auto

lemma merge_loop_covers:
  "x \<in> set xs \<Longrightarrow> eligible h key x \<Longrightarrow>
   hget h x key \<in> (\<lambda>a. hget h a key) ` set (foldl (keep_step h key) acc xs)"
proof (induction xs arbitrary: acc)
  case Nil
  then show ?case by simp
next
  case (Cons y xs)
  show ?case
  proof (cases "x = y")
    case True
    with Cons.prems(2) have "hget h x key \<in> (\<lambda>a. hget h a key) ` set (keep_step h key acc y)"
      by (auto simp: keep_step_cases)
    then obtain a where "a \<in> set (keep_step h key acc y)" "hget h a key = hget h x key"
      by auto
    with merge_loop_keeps [of a "keep_step h key acc y" h key xs] show ?thesis
      by (auto simp: image_iff) metis
  next
    case False
    with Cons.prems have "x \<in> set xs" by simp
    from Cons.IH [OF this Cons.prems(2), of "keep_step h key acc y"] show ?thesis by simp
  qed
qed

lemma merge_loop_first:
  "foldl (keep_step h key) acc xs = acc @ zs \<Longrightarrow> z \<in> set zs \<Longrightarrow>
   find (\<lambda>y. eligible h key y \<and> hget h y key = hget h z key) xs = Some z \<and>
   hget h z key \<notin> (\<lambda>a. hget h a key) ` set acc"
proof (induction xs arbitrary: acc zs)
  case Nil
  then show ?case by simp
next
  case (Cons x xs)
  show ?case
  proof (cases "eligible h key x \<and> hget h x key \<notin> (\<lambda>a. hget h a key) ` set acc")
    case True
    then have st: "keep_step h key acc x = acc @ [x]" by (simp add: keep_step_cases)
    from merge_loop_extends [of h key "acc @ [x]" xs] obtain zs' where
      zs': "foldl (keep_step h key) (acc @ [x]) xs = (acc @ [x]) @ zs'" by blast
    with Cons.prems(1) st have zs: "zs = x # zs'" by simp
    show ?thesis
    proof (cases "z \<in> set zs'")
      case True
      from Cons.IH [OF zs' True]
      have f: "find (\<lambda>y. eligible h key y \<and> hget h y key = hget h z key) xs = Some z"
        and n: "hget h z key \<notin> (\<lambda>a. hget h a key) ` set (acc @ [x])" by simp_all
      from n have "hget h x key \<noteq> hget h z key" by auto
      with f n show ?thesis by auto
    next
      case False
      with Cons.prems(2) zs have "z = x" by simp
      with True show ?thesis by simp
    qed
  next
    case False
    then have st: "keep_step h key acc x = acc" by (simp add: keep_step_cases)
    with Cons.prems(1) have "foldl (keep_step h key) acc xs = acc @ zs" by simp
    from Cons.IH [OF this Cons.prems(2)]
    have f: "find (\<lambda>y. eligible h key y \<and> hget h y key = hget h z key) xs = Some z"
      and n: "hget h z key \<notin> (\<lambda>a. hget h a key) ` set acc" by simp_all
    from False n have "\<not> (eligible h key x \<and> hget h x key = hget h z key)" by auto
    with f n show ?thesis by auto
  qed
qed

text \<open>
  Claim C10. Duplicates are decided by \<^verbatim>\<open>===\<close> on the values under the key. In
  \<open>heap_equal_arrays\<close> the two objects carry different arrays with the same content, their
  key values differ, and both objects are kept. In general, when no truthy element of the
  flattened input has an own member named \<^verbatim>\<open>hasOwnProperty\<close>, the call returns; its
  result is a subsequence of the flattened input, holds only truthy elements that own
  the key, holds no key value twice, holds every key value of such an element, and each
  element kept is the first of the input with its key value. When some truthy element
  has such a member, the call throws a \<^verbatim>\<open>TypeError\<close>.
\<close>

theorem mergeUniqueByKey_first_wins:
  "heap_equal_arrays 1 = heap_equal_arrays 2 \<and>
   hget heap_equal_arrays (HRef 3) ''id'' \<noteq> hget heap_equal_arrays (HRef 4) ''id'' \<and>
   mergeUniqueByKey heap_equal_arrays (HRef 6) ''id'' = Inr [HRef 3, HRef 4] \<and>
   (h a = Some (HArr outer) \<and> (\<forall>x\<in>set (flat h outer). \<not> shadows_method h x) \<longrightarrow>
      (\<exists>r. mergeUniqueByKey h (HRef a) key = Inr r \<and>
         subseq r (flat h outer) \<and>
         list_all (eligible h key) r \<and>
         distinct (map (\<lambda>x. hget h x key) r) \<and>
         (\<forall>x\<in>set (flat h outer). eligible h key x \<longrightarrow>
            hget h x key \<in> (\<lambda>y. hget h y key) ` set r) \<and>
         (\<forall>z\<in>set r.
            find (\<lambda>y. eligible h key y \<and> hget h y key = hget h z key) (flat h outer) = Some z))) \<and>
   (h a = Some (HArr outer) \<and> (\<exists>x\<in>set (flat h outer). shadows_method h x) \<longrightarrow>
      mergeUniqueByKey h (HRef a) key = Inl TypeError)"
proof -
  have 1: "heap_equal_arrays 1 = heap_equal_arrays 2 \<and>
   hget heap_equal_arrays (HRef 3) ''id'' \<noteq> hget heap_equal_arrays (HRef 4) ''id'' \<and>
   mergeUniqueByKey heap_equal_arrays (HRef 6) ''id'' = Inr [HRef 3, HRef 4]"
    by (simp add: heap_equal_arrays_def mergeUniqueByKey_def flat_def merge_step_def
          hasOwnProperty_def)
  have 2: "\<exists>r. mergeUniqueByKey h (HRef a) key = Inr r \<and>
         subseq r (flat h outer) \<and>
         list_all (eligible h key) r \<and>
         distinct (map (\<lambda>x. hget h x key) r) \<and>
         (\<forall>x\<in>set (flat h outer). eligible h key x \<longrightarrow>
            hget h x key \<in> (\<lambda>y. hget h y key) ` set r) \<and>
         (\<forall>z\<in>set r.
            find (\<lambda>y. eligible h key y \<and> hget h y key = hget h z key) (flat h outer) = Some z)"
    if ha: "h a = Some (HArr outer)" and ns: "\<forall>x\<in>set (flat h outer). \<not> shadows_method h x"
  proof -
    let ?xs = "flat h outer"
    let ?r = "foldl (keep_step h key) [] ?xs"
    have r: "mergeUniqueByKey h (HRef a) key = Inr ?r"
      using ha by (simp add: mergeUniqueByKey_def reduce_keep [OF ns])
    from merge_loop_extends [of h key "[]" ?xs] obtain zs where
      zs: "?r = [] @ zs" "subseq zs ?xs" by blast
    have a1: "subseq ?r ?xs" using zs by simp
    have a23: "list_all (eligible h key) ?r \<and> distinct (map (\<lambda>x. hget h x key) ?r)"
      by (rule merge_loop_invariant) simp_all
    have a4: "\<forall>x\<in>set ?xs. eligible h key x \<longrightarrow>
         hget h x key \<in> (\<lambda>y. hget h y key) ` set ?r"
      using merge_loop_covers by blast
    have a5: "\<forall>z\<in>set ?r.
         find (\<lambda>y. eligible h key y \<and> hget h y key = hget h z key) ?xs = Some z"
      using merge_loop_first [OF zs(1)] zs(1) by simp
    from r a1 a23 a4 a5 show ?thesis by blast
  qed
  have 3: "mergeUniqueByKey h (HRef a) key = Inl TypeError"
    if ha: "h a = Some (HArr outer)" and sh: "\<exists>x\<in>set (flat h outer). shadows_method h x"
    using ha by (simp add: mergeUniqueByKey_def reduce_throws [OF sh])
  from 1 2 3 show ?thesis by blast
qed

theorem mergeUniqueByKey_first_wins_witness:
  "heap_records 7 = Some (HArr [HRef 5, HRef 6]) \<and>
   list_all (\<lambda>x. \<not> shadows_method heap_records x) (flat heap_records [HRef 5, HRef 6]) \<and>
   mergeUniqueByKey heap_records (HRef 7) ''id'' = Inr [HRef 1, HRef 2, HRef 4] \<and>
   distinct (map (\<lambda>x. hget heap_records x ''id'') [HRef 1, HRef 2, HRef 4]) \<and>
   subseq [HRef 1, HRef 2, HRef 4] (flat heap_records [HRef 5, HRef 6]) \<and>
   heap_shadowed 3 = Some (HArr [HRef 2]) \<and>
   list_ex (shadows_method heap_shadowed) (flat heap_shadowed [HRef 2]) \<and>
   mergeUniqueByKey heap_shadowed (HRef 3) ''id'' = Inl TypeError"
proof -
  have h: "heap_records 7 = Some (HArr [HRef 5, HRef 6])"
    by (simp add: heap_records_def)
  have f: "flat heap_records [HRef 5, HRef 6] = [HRef 1, HRef 2, HRef 3, HRef 4]"
    by (simp add: heap_records_def flat_def)
  have n: "list_all (\<lambda>x. \<not> shadows_method heap_records x) (flat heap_records [HRef 5, HRef 6])"
    by (simp add: f) (simp add: heap_records_def shadows_method_def)
  have e: "mergeUniqueByKey heap_records (HRef 7) ''id'' = Inr [HRef 1, HRef 2, HRef 4]"
    by (simp add: heap_records_def mergeUniqueByKey_def flat_def merge_step_def
          hasOwnProperty_def)
  from n have n': "\<forall>x\<in>set (flat heap_records [HRef 5, HRef 6]). \<not> shadows_method heap_records x"
    by (simp only: list_all_iff)
  from mergeUniqueByKey_first_wins [of heap_records 7 "[HRef 5, HRef 6]" "''id''"] h n'
  obtain r where r: "mergeUniqueByKey heap_records (HRef 7) ''id'' = Inr r"
      "distinct (map (\<lambda>x. hget heap_records x ''id'') r)"
      "subseq r (flat heap_records [HRef 5, HRef 6])"
    by blast
  with e have k: "distinct (map (\<lambda>x. hget heap_records x ''id'') [HRef 1, HRef 2, HRef 4]) \<and>
   subseq [HRef 1, HRef 2, HRef 4] (flat heap_records [HRef 5, HRef 6])"
    by simp
  have hs: "heap_shadowed 3 = Some (HArr [HRef 2])"
    by (simp add: heap_shadowed_def)
  have fs: "flat heap_shadowed [HRef 2] = [HRef 1]"
    by (simp add: heap_shadowed_def flat_def)
  have s: "list_ex (shadows_method heap_shadowed) (flat heap_shadowed [HRef 2])"
    by (simp add: fs) (simp add: heap_shadowed_def shadows_method_def)
  then have s': "\<exists>x\<in>set (flat heap_shadowed [HRef 2]). shadows_method heap_shadowed x"
    by (simp only: list_ex_iff)
  from mergeUniqueByKey_first_wins [of heap_shadowed 3 "[HRef 2]" "''id''"] hs s'
  have t: "mergeUniqueByKey heap_shadowed (HRef 3) ''id'' = Inl TypeError"
    by blast
  from h n e k hs s t show ?thesis by blast
qed

end
